theory Spec2Isabelle
  imports Complex_Main "HOL-Library.Monad_Syntax"
begin

section \<open>FluidGrid: a shallow embedding of src/cpp/fluidSim/src/FluidGrid.cpp\<close>

text \<open>
  Conventions of the embedding.
  \<^item> A \<^verbatim>\<open>float*\<close> is an address (\<open>ptr\<close>); the memory maps an allocated address to the
    list of its cells. Swapping two pointers exchanges addresses, never contents, so the
    aliasing the source creates is visible in the model.
  \<^item> Reading or writing outside an allocated buffer (or through \<open>NULL\<close>) is undefined
    behaviour in C++; the model returns \<open>None\<close> there, and \<open>None\<close> propagates.
  \<^item> \<^verbatim>\<open>float\<close> and \<^verbatim>\<open>double\<close> values are modelled as \<open>real\<close>. The model therefore holds
    finite values only (no infinity, no NaN), and its arithmetic is exact: it agrees with the
    single-precision arithmetic of the code exactly where that arithmetic does not round,
    overflow or meet a non-finite value. The properties below that speak of cell values are
    stated for such computations only (sums and products with 0 and 1, small integers), with
    one exception: the property of \<^verbatim>\<open>fadeDensity\<close> depends on how its products are rounded, so
    that function is modelled with the rounding of every operation written out (section
    Rounding).
    \<^verbatim>\<open>int\<close> values are \<open>int\<close> (the index \<^verbatim>\<open>x + y * size\<close> is assumed to fit the machine integer).
  \<^item> An \<^verbatim>\<open>__m256\<close> register is a function from the lane number (0 to 7) to the lane value.
  \<^item> The timers and the printing of \<^verbatim>\<open>step\<close> do not touch the buffers and are left out.
\<close>

subsection \<open>Memory\<close>

type_synonym ptr = nat

definition NULL :: ptr where
  "NULL = 0"

datatype Direction = NONE | HORIZONTAL | VERTICAL

record FluidGrid =
  size' :: int
  density :: ptr
  prevDensity :: ptr
  velocityX :: ptr
  prevVelocityX :: ptr
  velocityY :: ptr
  prevVelocityY :: ptr
  tmp :: ptr
  mem :: "ptr \<Rightarrow> real list option"
  threadPool :: "int \<Rightarrow> (int \<times> int) list"

text \<open>\<open>rd g p i\<close> is the read \<^verbatim>\<open>p[i]\<close>, \<open>wr p i v\<close> the write \<^verbatim>\<open>p[i] = v\<close>.\<close>

definition rd :: "FluidGrid \<Rightarrow> ptr \<Rightarrow> int \<Rightarrow> real option" where
  "rd g p i = (case mem g p of
       None \<Rightarrow> None
     | Some xs \<Rightarrow> if 0 \<le> i \<and> i < int (length xs) then Some (xs ! nat i) else None)"

definition wr :: "ptr \<Rightarrow> int \<Rightarrow> real \<Rightarrow> FluidGrid \<Rightarrow> FluidGrid option" where
  "wr p i v g = (case mem g p of
       None \<Rightarrow> None
     | Some xs \<Rightarrow> if 0 \<le> i \<and> i < int (length xs)
         then Some (g\<lparr>mem := (mem g)(p \<mapsto> xs[nat i := v])\<rparr>) else None)"

subsection \<open>Loops\<close>

text \<open>\<^verbatim>\<open>for (int i = a; i < n; i++) body\<close>, the body possibly undefined.\<close>

function for_loop :: "int \<Rightarrow> int \<Rightarrow> (int \<Rightarrow> 's \<Rightarrow> 's option) \<Rightarrow> 's \<Rightarrow> 's option" where
  "for_loop i n body s =
     (if i < n then (case body i s of None \<Rightarrow> None | Some s' \<Rightarrow> for_loop (i + 1) n body s')
      else Some s)"
  by pat_completeness auto
termination
  by (relation "measure (\<lambda>(i, n, body, s). nat (n - i))") auto

declare for_loop.simps [simp del]

text \<open>\<^verbatim>\<open>for (; x < n; x += 8) body\<close>; the final \<open>x\<close> is returned, since the scalar loop
  that follows starts from it.\<close>

function simd_loop :: "int \<Rightarrow> int \<Rightarrow> (int \<Rightarrow> 's \<Rightarrow> 's option) \<Rightarrow> 's \<Rightarrow> (int \<times> 's) option" where
  "simd_loop x n body s =
     (if x < n then (case body x s of None \<Rightarrow> None | Some s' \<Rightarrow> simd_loop (x + 8) n body s')
      else Some (x, s))"
  by pat_completeness auto
termination
  by (relation "measure (\<lambda>(x, n, body, s). nat (n - x))") auto

declare simd_loop.simps [simp del]

text \<open>One row of a stencil kernel: \<^verbatim>\<open>int x = 1;\<close> then the 8-lane loop while
  \<^verbatim>\<open>x < size - 9\<close>, then the scalar loop while \<^verbatim>\<open>x < size - 1\<close>.\<close>

definition row_loop :: "int \<Rightarrow> (int \<Rightarrow> 's \<Rightarrow> 's option) \<Rightarrow> (int \<Rightarrow> 's \<Rightarrow> 's option) \<Rightarrow> 's \<Rightarrow> 's option" where
  "row_loop n vec scal s =
     (case simd_loop 1 (n - 9) vec s of
        None \<Rightarrow> None
      | Some (x, s') \<Rightarrow> for_loop x (n - 1) scal s')"

subsection \<open>The AVX intrinsics\<close>

type_synonym m256 = "nat \<Rightarrow> real"
type_synonym m256i = "nat \<Rightarrow> int"

definition mm256_set_ps :: "real \<Rightarrow> real \<Rightarrow> real \<Rightarrow> real \<Rightarrow> real \<Rightarrow> real \<Rightarrow> real \<Rightarrow> real \<Rightarrow> m256" where
  "mm256_set_ps e7 e6 e5 e4 e3 e2 e1 e0 = (\<lambda>l. [e0, e1, e2, e3, e4, e5, e6, e7] ! l)"

definition mm256_set1_ps :: "real \<Rightarrow> m256" where
  "mm256_set1_ps a = (\<lambda>l. a)"

definition mm256_setzero_ps :: m256 where
  "mm256_setzero_ps = (\<lambda>l. 0)"

definition mm256_set1_epi32 :: "int \<Rightarrow> m256i" where
  "mm256_set1_epi32 a = (\<lambda>l. a)"

definition mm256_add_ps :: "m256 \<Rightarrow> m256 \<Rightarrow> m256" where
  "mm256_add_ps a b = (\<lambda>l. a l + b l)"

definition mm256_sub_ps :: "m256 \<Rightarrow> m256 \<Rightarrow> m256" where
  "mm256_sub_ps a b = (\<lambda>l. a l - b l)"

definition mm256_mul_ps :: "m256 \<Rightarrow> m256 \<Rightarrow> m256" where
  "mm256_mul_ps a b = (\<lambda>l. a l * b l)"

text \<open>\<^verbatim>\<open>_mm256_fmadd_ps(a, b, c)\<close> is \<open>a * b + c\<close>.\<close>

definition mm256_fmadd_ps :: "m256 \<Rightarrow> m256 \<Rightarrow> m256 \<Rightarrow> m256" where
  "mm256_fmadd_ps a b c = (\<lambda>l. a l * b l + c l)"

definition mm256_max_ps :: "m256 \<Rightarrow> m256 \<Rightarrow> m256" where
  "mm256_max_ps a b = (\<lambda>l. if a l > b l then a l else b l)"

definition mm256_min_ps :: "m256 \<Rightarrow> m256 \<Rightarrow> m256" where
  "mm256_min_ps a b = (\<lambda>l. if a l < b l then a l else b l)"

definition mm256_floor_ps :: "m256 \<Rightarrow> m256" where
  "mm256_floor_ps a = (\<lambda>l. of_int \<lfloor>a l\<rfloor>)"

text \<open>Conversion to integer in the default rounding mode: to nearest, ties to even.\<close>

definition round_nearest_even :: "real \<Rightarrow> int" where
  "round_nearest_even r =
     (let f = \<lfloor>r\<rfloor>; d = r - of_int f in
      if d < 1 / 2 then f else if 1 / 2 < d then f + 1 else if even f then f else f + 1)"

definition mm256_cvtps_epi32 :: "m256 \<Rightarrow> m256i" where
  "mm256_cvtps_epi32 a = (\<lambda>l. round_nearest_even (a l))"

definition mm256_mullo_epi32 :: "m256i \<Rightarrow> m256i \<Rightarrow> m256i" where
  "mm256_mullo_epi32 a b = (\<lambda>l. a l * b l)"

definition mm256_add_epi32 :: "m256i \<Rightarrow> m256i \<Rightarrow> m256i" where
  "mm256_add_epi32 a b = (\<lambda>l. a l + b l)"

text \<open>\<^verbatim>\<open>_mm256_loadu_ps(&p[i])\<close> reads the cells \<open>i\<close> to \<open>i + 7\<close>.\<close>

definition mm256_loadu_ps :: "FluidGrid \<Rightarrow> ptr \<Rightarrow> int \<Rightarrow> m256 option" where
  "mm256_loadu_ps g p i = (case mem g p of
       None \<Rightarrow> None
     | Some xs \<Rightarrow> if 0 \<le> i \<and> i + 8 \<le> int (length xs)
         then Some (\<lambda>l. xs ! (nat i + l)) else None)"

text \<open>\<^verbatim>\<open>_mm256_load_ps(&p[i])\<close> is the aligned load: its address must be a multiple of 32
  bytes, and the behaviour is undefined otherwise. The model has no byte addresses; it takes
  every buffer to start at a 32-byte boundary (the most favourable case: \<^verbatim>\<open>calloc\<close> promises
  no more than the alignment of the fundamental types), so that \<^verbatim>\<open>&p[i]\<close>, four bytes a cell,
  is aligned exactly when 8 divides \<open>i\<close>.\<close>

definition mm256_load_ps :: "FluidGrid \<Rightarrow> ptr \<Rightarrow> int \<Rightarrow> m256 option" where
  "mm256_load_ps g p i = (if i mod 8 = 0 then mm256_loadu_ps g p i else None)"

fun store_lanes :: "nat \<Rightarrow> nat \<Rightarrow> m256 \<Rightarrow> real list \<Rightarrow> real list" where
  "store_lanes 0 a v xs = xs"
| "store_lanes (Suc n) a v xs = (store_lanes n a v xs)[a + n := v n]"

text \<open>\<^verbatim>\<open>_mm256_storeu_ps(&p[i], v)\<close> writes the cells \<open>i\<close> to \<open>i + 7\<close>.\<close>

definition mm256_storeu_ps :: "ptr \<Rightarrow> int \<Rightarrow> m256 \<Rightarrow> FluidGrid \<Rightarrow> FluidGrid option" where
  "mm256_storeu_ps p i v g = (case mem g p of
       None \<Rightarrow> None
     | Some xs \<Rightarrow> if 0 \<le> i \<and> i + 8 \<le> int (length xs)
         then Some (g\<lparr>mem := (mem g)(p \<mapsto> store_lanes 8 (nat i) v xs)\<rparr>) else None)"

text \<open>\<^verbatim>\<open>_mm256_i32gather_ps(&p[base], idx, sizeof(float))\<close> reads \<^verbatim>\<open>p[base + idx[l]]\<close>
  in every lane \<open>l\<close>.\<close>

definition mm256_i32gather_ps :: "FluidGrid \<Rightarrow> ptr \<Rightarrow> int \<Rightarrow> m256i \<Rightarrow> m256 option" where
  "mm256_i32gather_ps g p base idx = (case mem g p of
       None \<Rightarrow> None
     | Some xs \<Rightarrow> if list_all (\<lambda>l. 0 \<le> base + idx l \<and> base + idx l < int (length xs)) [0..<8]
         then Some (\<lambda>l. xs ! nat (base + idx l)) else None)"

subsection \<open>The worker pool\<close>

text \<open>
  Modelled from the spec: the class \<^verbatim>\<open>ThreadPool\<close> (\<^verbatim>\<open>init\<close>, \<^verbatim>\<open>computeOnThreads\<close>) is not
  among the sources. The spec (4.1, 8) has the pool, constructed with a fixed worker count,
  partition \<open>[0, rangeSize)\<close> into that many contiguous, non-overlapping chunks (the remainder
  distributed over the first chunks or folded into the last), invoke the work once per chunk
  \<^verbatim>\<open>(start, end)\<close> and return when every chunk is done. In the model the chunks are run one
  after the other, in the order of the list. \<open>chunks_from a cs n\<close> says that the list \<open>cs\<close>
  is such a partition of \<open>[a, n)\<close>; \<open>workerChunks w\<close> is the partition for \<open>w\<close> workers that
  folds the remainder into the last chunk. The pool of a grid is its field \<open>threadPool\<close>, from
  the range size to the chunks; the constructor, which calls \<^verbatim>\<open>threadPool.init(6)\<close>, installs
  \<open>workerChunks 6\<close>.
\<close>

fun chunks_from :: "int \<Rightarrow> (int \<times> int) list \<Rightarrow> int \<Rightarrow> bool" where
  "chunks_from a [] n = (a = n)"
| "chunks_from a (c # cs) n = (fst c = a \<and> a \<le> snd c \<and> chunks_from (snd c) cs n)"

definition workerChunks :: "nat \<Rightarrow> int \<Rightarrow> (int \<times> int) list" where
  "workerChunks w n = (let q = n div int w in
     map (\<lambda>i. (int i * q, if Suc i = w then n else (int i + 1) * q)) [0..<w])"

fun run_chunks :: "(int \<times> int) list \<Rightarrow> (int \<Rightarrow> int \<Rightarrow> FluidGrid \<Rightarrow> FluidGrid option) \<Rightarrow> FluidGrid \<Rightarrow> FluidGrid option" where
  "run_chunks [] work g = Some g"
| "run_chunks (c # cs) work g =
     (case work (fst c) (snd c) g of None \<Rightarrow> None | Some g' \<Rightarrow> run_chunks cs work g')"

definition computeOnThreads :: "int \<Rightarrow> (int \<Rightarrow> int \<Rightarrow> FluidGrid \<Rightarrow> FluidGrid option) \<Rightarrow> FluidGrid \<Rightarrow> FluidGrid option" where
  "computeOnThreads n work g = run_chunks (threadPool g n) work g"

subsection \<open>Construction\<close>

datatype exception = RuntimeError string

text \<open>\<^verbatim>\<open>calloc\<close> either fails and returns \<open>NULL\<close>, or returns a fresh zero-filled buffer.
  Whether the \<open>k\<close>-th request succeeds is the parameter \<open>ok\<close>; the address handed out is
  \<open>a\<close>.\<close>

definition calloc :: "bool \<Rightarrow> ptr \<Rightarrow> int \<Rightarrow> (ptr \<Rightarrow> real list option) \<Rightarrow> ptr \<times> (ptr \<Rightarrow> real list option)" where
  "calloc ok a n m = (if ok then (a, m(a \<mapsto> replicate (nat n) 0)) else (NULL, m))"

definition FluidGrid_new :: "(nat \<Rightarrow> bool) \<Rightarrow> int \<Rightarrow> exception + FluidGrid" where
  "FluidGrid_new ok sz =
     (let (density, m) = calloc (ok 0) 1 (sz * sz) (\<lambda>p. None);
          (prevDensity, m) = calloc (ok 1) 2 (sz * sz) m;
          (velocityX, m) = calloc (ok 2) 3 (sz * sz) m;
          (prevVelocityX, m) = calloc (ok 3) 4 (sz * sz) m;
          (velocityY, m) = calloc (ok 4) 5 (sz * sz) m;
          (prevVelocityY, m) = calloc (ok 5) 6 (sz * sz) m;
          (tmp, m) = calloc (ok 6) 7 (sz * sz) m
      in if \<not> (density \<noteq> NULL \<and> prevDensity \<noteq> NULL \<and> velocityX \<noteq> NULL \<and> prevVelocityX \<noteq> NULL
               \<and> velocityY \<noteq> NULL \<and> prevVelocityY \<noteq> NULL)
         then Inl (RuntimeError (''Failed to allocate memory for FluidGrid'' @ [CHR 0x0A]))
         else Inr \<lparr>size' = sz, density = density, prevDensity = prevDensity,
                   velocityX = velocityX, prevVelocityX = prevVelocityX,
                   velocityY = velocityY, prevVelocityY = prevVelocityY,
                   tmp = tmp, mem = m, threadPool = workerChunks 6\<rparr>)"

subsection \<open>Perturbations\<close>

definition addVelocity :: "int \<Rightarrow> int \<Rightarrow> real \<Rightarrow> real \<Rightarrow> real \<Rightarrow> FluidGrid \<Rightarrow> FluidGrid option" where
  "addVelocity x y amountX amountY dt g = do {
     vx \<leftarrow> rd g (velocityX g) (x + y * size' g);
     g \<leftarrow> wr (velocityX g) (x + y * size' g) (vx + amountX * dt * of_int (size' g)) g;
     vy \<leftarrow> rd g (velocityY g) (x + y * size' g);
     wr (velocityY g) (x + y * size' g) (vy + amountY * dt * of_int (size' g)) g
   }"

definition addDensity :: "int \<Rightarrow> int \<Rightarrow> real \<Rightarrow> real \<Rightarrow> FluidGrid \<Rightarrow> FluidGrid option" where
  "addDensity x y amount dt g = do {
     d \<leftarrow> rd g (density g) (x + y * size' g);
     wr (density g) (x + y * size' g) (d + amount * dt * of_int (size' g)) g
   }"

subsection \<open>Boundary conditions\<close>

definition setBounds_edge :: "Direction \<Rightarrow> ptr \<Rightarrow> int \<Rightarrow> FluidGrid \<Rightarrow> FluidGrid option" where
  "setBounds_edge direction arr i g = do {
     a \<leftarrow> rd g arr (1 + i * size' g);
     g \<leftarrow> wr arr (0 + i * size' g) (if direction = HORIZONTAL then - a else a) g;
     b \<leftarrow> rd g arr ((size' g - 2) + i * size' g);
     g \<leftarrow> wr arr ((size' g - 1) + i * size' g) (if direction = HORIZONTAL then - b else b) g;
     c \<leftarrow> rd g arr (i + 1 * size' g);
     g \<leftarrow> wr arr (i + 0 * size' g) (if direction = VERTICAL then - c else c) g;
     d \<leftarrow> rd g arr (i + (size' g - 2) * size' g);
     wr arr (i + (size' g - 1) * size' g) (if direction = VERTICAL then - d else d) g
   }"

definition setBounds_corners :: "ptr \<Rightarrow> FluidGrid \<Rightarrow> FluidGrid option" where
  "setBounds_corners arr g = do {
     a \<leftarrow> rd g arr (1 + 0 * size' g);
     b \<leftarrow> rd g arr (0 + 1 * size' g);
     g \<leftarrow> wr arr (0 + 0 * size' g) (0.5 * (a + b)) g;
     a \<leftarrow> rd g arr ((size' g - 2) + 0 * size' g);
     b \<leftarrow> rd g arr ((size' g - 1) + 1 * size' g);
     g \<leftarrow> wr arr ((size' g - 1) + 0 * size' g) (0.5 * (a + b)) g;
     a \<leftarrow> rd g arr (0 + (size' g - 2) * size' g);
     b \<leftarrow> rd g arr (1 + (size' g - 1) * size' g);
     g \<leftarrow> wr arr (0 + (size' g - 1) * size' g) (0.5 * (a + b)) g;
     a \<leftarrow> rd g arr ((size' g - 2) + (size' g - 1) * size' g);
     b \<leftarrow> rd g arr ((size' g - 1) + (size' g - 2) * size' g);
     wr arr ((size' g - 1) + (size' g - 1) * size' g) (0.5 * (a + b)) g
   }"

definition setBounds :: "Direction \<Rightarrow> ptr \<Rightarrow> FluidGrid \<Rightarrow> FluidGrid option" where
  "setBounds direction arr g = do {
     g \<leftarrow> for_loop 1 (size' g - 1) (setBounds_edge direction arr) g;
     setBounds_corners arr g
   }"

subsection \<open>Jacobi relaxation\<close>

definition linearSolveLoop_vec :: "ptr \<Rightarrow> ptr \<Rightarrow> m256 \<Rightarrow> m256 \<Rightarrow> int \<Rightarrow> int \<Rightarrow> FluidGrid \<Rightarrow> FluidGrid option" where
  "linearSolveLoop_vec arr prevArr v_neighborDiffusion v_reciprocalScaling y x g = do {
     v_up \<leftarrow> mm256_loadu_ps g arr (x + (y - 1) * size' g);
     v_left \<leftarrow> mm256_loadu_ps g arr ((x - 1) + y * size' g);
     v_right \<leftarrow> mm256_loadu_ps g arr ((x + 1) + y * size' g);
     v_down \<leftarrow> mm256_loadu_ps g arr (x + (y + 1) * size' g);
     v_cell \<leftarrow> mm256_loadu_ps g prevArr (x + y * size' g);
     let v_cell = mm256_fmadd_ps v_up v_neighborDiffusion v_cell;
     let v_cell = mm256_fmadd_ps v_left v_neighborDiffusion v_cell;
     let v_cell = mm256_fmadd_ps v_right v_neighborDiffusion v_cell;
     let v_cell = mm256_fmadd_ps v_down v_neighborDiffusion v_cell;
     let v_cell = mm256_mul_ps v_cell v_reciprocalScaling;
     mm256_storeu_ps (tmp g) (x + y * size' g) v_cell g
   }"

definition linearSolveLoop_cell :: "ptr \<Rightarrow> ptr \<Rightarrow> real \<Rightarrow> real \<Rightarrow> int \<Rightarrow> int \<Rightarrow> FluidGrid \<Rightarrow> FluidGrid option" where
  "linearSolveLoop_cell arr prevArr neighborDiffusion reciprocalScaling y x g = do {
     a \<leftarrow> rd g arr (x + ((y - 1) * size' g));
     b \<leftarrow> rd g arr (x + ((y + 1) * size' g));
     c \<leftarrow> rd g arr ((x - 1) + (y * size' g));
     d \<leftarrow> rd g arr ((x + 1) + (y * size' g));
     let neighbors = neighborDiffusion * (a + b + c + d);
     previous \<leftarrow> rd g prevArr (x + y * size' g);
     wr (tmp g) (x + y * size' g) ((previous + neighbors) * reciprocalScaling) g
   }"

definition linearSolveLoop :: "int \<Rightarrow> int \<Rightarrow> ptr \<Rightarrow> ptr \<Rightarrow> real \<Rightarrow> m256 \<Rightarrow> real \<Rightarrow> m256 \<Rightarrow> FluidGrid \<Rightarrow> FluidGrid option" where
  "linearSolveLoop startIndex endIndex arr prevArr neighborDiffusion v_neighborDiffusion
       reciprocalScaling v_reciprocalScaling g =
     for_loop startIndex endIndex (\<lambda>y g.
       row_loop (size' g)
         (linearSolveLoop_vec arr prevArr v_neighborDiffusion v_reciprocalScaling y)
         (linearSolveLoop_cell arr prevArr neighborDiffusion reciprocalScaling y) g) g"

text \<open>One iteration of the relaxation loop. The loop state is the local parameter
  \<^verbatim>\<open>arr\<close> together with the grid: \<^verbatim>\<open>std::swap(tmp, arr)\<close> exchanges the member \<^verbatim>\<open>tmp\<close>
  with the local \<^verbatim>\<open>arr\<close>, and the caller's pointer is not changed.\<close>

definition linearSolve_pass :: "ptr \<Rightarrow> ptr \<Rightarrow> real \<Rightarrow> real \<Rightarrow> FluidGrid \<Rightarrow> FluidGrid option" where
  "linearSolve_pass arr prevArr neighborDiffusion reciprocalScaling g =
     computeOnThreads (size' g) (\<lambda>startIndex endIndex.
       linearSolveLoop startIndex endIndex arr prevArr
         neighborDiffusion (mm256_set1_ps neighborDiffusion)
         reciprocalScaling (mm256_set1_ps reciprocalScaling)) g"

definition linearSolve_iteration :: "Direction \<Rightarrow> ptr \<Rightarrow> real \<Rightarrow> real \<Rightarrow> ptr \<times> FluidGrid \<Rightarrow> (ptr \<times> FluidGrid) option" where
  "linearSolve_iteration direction prevArr neighborDiffusion reciprocalScaling s =
     (case s of (arr, g) \<Rightarrow> do {
        g \<leftarrow> linearSolve_pass arr prevArr neighborDiffusion reciprocalScaling g;
        let (arr, g) = (tmp g, g\<lparr>tmp := arr\<rparr>);
        g \<leftarrow> setBounds direction arr g;
        Some (arr, g)
      })"

definition linearSolve_locals :: "Direction \<Rightarrow> int \<Rightarrow> ptr \<Rightarrow> ptr \<Rightarrow> real \<Rightarrow> real \<Rightarrow> FluidGrid \<Rightarrow> (ptr \<times> FluidGrid) option" where
  "linearSolve_locals direction iterations arr prevArr neighborDiffusion scaling g =
     (let reciprocalScaling = 1 / scaling in
      for_loop 0 iterations
        (\<lambda>iteration. linearSolve_iteration direction prevArr neighborDiffusion reciprocalScaling)
        (arr, g))"

definition linearSolve :: "Direction \<Rightarrow> int \<Rightarrow> ptr \<Rightarrow> ptr \<Rightarrow> real \<Rightarrow> real \<Rightarrow> FluidGrid \<Rightarrow> FluidGrid option" where
  "linearSolve direction iterations arr prevArr neighborDiffusion scaling g =
     map_option snd (linearSolve_locals direction iterations arr prevArr neighborDiffusion scaling g)"

definition diffuse :: "Direction \<Rightarrow> int \<Rightarrow> ptr \<Rightarrow> ptr \<Rightarrow> real \<Rightarrow> real \<Rightarrow> FluidGrid \<Rightarrow> FluidGrid option" where
  "diffuse direction iterations arr prevArr dt diffusion g =
     (let neighborDiffusion = diffusion * dt * of_int (size' g) * of_int (size' g);
          scaling = 1 + 4 * neighborDiffusion
      in linearSolve direction iterations arr prevArr neighborDiffusion scaling g)"

subsection \<open>Projection\<close>

definition projectHeightMapLoop_vec :: "ptr \<Rightarrow> ptr \<Rightarrow> ptr \<Rightarrow> ptr \<Rightarrow> m256 \<Rightarrow> int \<Rightarrow> int \<Rightarrow> FluidGrid \<Rightarrow> FluidGrid option" where
  "projectHeightMapLoop_vec velX velY p div' v_sizeReciprocal y x g = do {
     v_up \<leftarrow> mm256_loadu_ps g velY (x + (y - 1) * size' g);
     v_down \<leftarrow> mm256_loadu_ps g velY (x + (y + 1) * size' g);
     v_left \<leftarrow> mm256_loadu_ps g velX ((x - 1) + y * size' g);
     v_right \<leftarrow> mm256_loadu_ps g velX ((x + 1) + y * size' g);
     let v_x = mm256_sub_ps v_left v_right;
     let v_y = mm256_sub_ps v_up v_down;
     let v_cell = mm256_add_ps v_x v_y;
     let v_cell = mm256_mul_ps v_cell (mm256_set1_ps (- 0.5));
     let v_cell = mm256_mul_ps v_cell v_sizeReciprocal;
     g \<leftarrow> mm256_storeu_ps div' (x + y * size' g) v_cell g;
     mm256_storeu_ps p (x + y * size' g) mm256_setzero_ps g
   }"

definition projectHeightMapLoop_cell :: "ptr \<Rightarrow> ptr \<Rightarrow> ptr \<Rightarrow> ptr \<Rightarrow> real \<Rightarrow> int \<Rightarrow> int \<Rightarrow> FluidGrid \<Rightarrow> FluidGrid option" where
  "projectHeightMapLoop_cell velX velY p div' sizeReciprocal y x g = do {
     l \<leftarrow> rd g velX ((x - 1) + y * size' g);
     r \<leftarrow> rd g velX ((x + 1) + y * size' g);
     u \<leftarrow> rd g velY (x + (y - 1) * size' g);
     d \<leftarrow> rd g velY (x + (y + 1) * size' g);
     g \<leftarrow> wr div' (x + y * size' g) (- 0.5 * (l - r + u - d) * sizeReciprocal) g;
     wr p (x + y * size' g) 0 g
   }"

definition projectHeightMapLoop :: "int \<Rightarrow> int \<Rightarrow> ptr \<Rightarrow> ptr \<Rightarrow> ptr \<Rightarrow> ptr \<Rightarrow> FluidGrid \<Rightarrow> FluidGrid option" where
  "projectHeightMapLoop startIndex endIndex velX velY p div' g =
     (let sizeReciprocal = 1 / of_int (size' g) in
      for_loop startIndex endIndex (\<lambda>y g.
        row_loop (size' g)
          (projectHeightMapLoop_vec velX velY p div' (mm256_set1_ps sizeReciprocal) y)
          (projectHeightMapLoop_cell velX velY p div' sizeReciprocal y) g) g)"

definition projectMassConservLoop_vec :: "ptr \<Rightarrow> ptr \<Rightarrow> int \<Rightarrow> int \<Rightarrow> FluidGrid \<Rightarrow> FluidGrid option" where
  "projectMassConservLoop_vec p div' y x g = do {
     v_left \<leftarrow> mm256_loadu_ps g p ((x - 1) + y * size' g);
     v_right \<leftarrow> mm256_loadu_ps g p ((x + 1) + y * size' g);
     let v_val = mm256_sub_ps v_left v_right;
     let v_val = mm256_mul_ps v_val (mm256_set1_ps (of_int (size' g)));
     v_oldVal \<leftarrow> mm256_loadu_ps g (velocityX g) (x + y * size' g);
     let v_oldVal = mm256_fmadd_ps v_val (mm256_set1_ps (- 0.5)) v_oldVal;
     g \<leftarrow> mm256_storeu_ps (velocityX g) (x + y * size' g) v_oldVal g;
     v_up \<leftarrow> mm256_loadu_ps g p (x + (y - 1) * size' g);
     v_down \<leftarrow> mm256_loadu_ps g p (x + (y + 1) * size' g);
     let v_val = mm256_sub_ps v_up v_down;
     let v_val = mm256_mul_ps v_val (mm256_set1_ps (of_int (size' g)));
     v_oldVal \<leftarrow> mm256_loadu_ps g (velocityY g) (x + y * size' g);
     let v_oldVal = mm256_fmadd_ps v_val (mm256_set1_ps (- 0.5)) v_oldVal;
     mm256_storeu_ps (velocityY g) (x + y * size' g) v_oldVal g
   }"

definition projectMassConservLoop_cell :: "ptr \<Rightarrow> ptr \<Rightarrow> int \<Rightarrow> int \<Rightarrow> FluidGrid \<Rightarrow> FluidGrid option" where
  "projectMassConservLoop_cell p div' y x g = do {
     vx \<leftarrow> rd g (velocityX g) (x + y * size' g);
     l \<leftarrow> rd g p ((x - 1) + y * size' g);
     r \<leftarrow> rd g p ((x + 1) + y * size' g);
     g \<leftarrow> wr (velocityX g) (x + y * size' g) (vx - 0.5 * (l - r) * of_int (size' g)) g;
     vy \<leftarrow> rd g (velocityY g) (x + y * size' g);
     u \<leftarrow> rd g p (x + (y - 1) * size' g);
     d \<leftarrow> rd g p (x + (y + 1) * size' g);
     wr (velocityY g) (x + y * size' g) (vy - 0.5 * (u - d) * of_int (size' g)) g
   }"

definition projectMassConservLoop :: "int \<Rightarrow> int \<Rightarrow> ptr \<Rightarrow> ptr \<Rightarrow> FluidGrid \<Rightarrow> FluidGrid option" where
  "projectMassConservLoop startIndex endIndex p div' g =
     for_loop startIndex endIndex (\<lambda>y g.
       row_loop (size' g)
         (projectMassConservLoop_vec p div' y)
         (projectMassConservLoop_cell p div' y) g) g"

text \<open>The two parallel passes of \<^verbatim>\<open>project\<close>.\<close>

definition projectHeightMap_pass :: "ptr \<Rightarrow> ptr \<Rightarrow> ptr \<Rightarrow> ptr \<Rightarrow> FluidGrid \<Rightarrow> FluidGrid option" where
  "projectHeightMap_pass velX velY p div' g =
     computeOnThreads (size' g) (\<lambda>startIndex endIndex.
       projectHeightMapLoop startIndex endIndex velX velY p div') g"

definition projectMassConserv_pass :: "ptr \<Rightarrow> ptr \<Rightarrow> FluidGrid \<Rightarrow> FluidGrid option" where
  "projectMassConserv_pass p div' g =
     computeOnThreads (size' g) (\<lambda>startIndex endIndex.
       projectMassConservLoop startIndex endIndex p div') g"

definition project :: "int \<Rightarrow> ptr \<Rightarrow> ptr \<Rightarrow> ptr \<Rightarrow> ptr \<Rightarrow> FluidGrid \<Rightarrow> FluidGrid option" where
  "project iterations velX velY p div' g = do {
     g \<leftarrow> projectHeightMap_pass velX velY p div' g;
     g \<leftarrow> setBounds NONE div' g;
     g \<leftarrow> setBounds NONE p g;
     g \<leftarrow> linearSolve NONE iterations p div' 1 4 g;
     g \<leftarrow> projectMassConserv_pass p div' g;
     g \<leftarrow> setBounds HORIZONTAL (velocityX g) g;
     setBounds VERTICAL (velocityY g) g
   }"

subsection \<open>Advection\<close>

text \<open>\<^verbatim>\<open>std::clamp(v, lo, hi)\<close>.\<close>

definition clamp :: "real \<Rightarrow> real \<Rightarrow> real \<Rightarrow> real" where
  "clamp v lo hi = (if v < lo then lo else if hi < v then hi else v)"

text \<open>The cast \<^verbatim>\<open>(int)\<close> of a float truncates towards zero.\<close>

definition float_to_int :: "real \<Rightarrow> int" where
  "float_to_int r = (if 0 \<le> r then \<lfloor>r\<rfloor> else \<lceil>r\<rceil>)"

definition advectLoop_vec :: "ptr \<Rightarrow> ptr \<Rightarrow> ptr \<Rightarrow> ptr \<Rightarrow> real \<Rightarrow> real \<Rightarrow> int \<Rightarrow> int \<Rightarrow> FluidGrid \<Rightarrow> FluidGrid option" where
  "advectLoop_vec arr prevArr velX velY scaling maxClamp y x g = do {
     let v_xIncrements = mm256_set_ps 7 6 5 4 3 2 1 0;
     let v_scaling = mm256_set1_ps scaling;
     let v_maxClamp = mm256_set1_ps maxClamp;
     let v_minClamp = mm256_set1_ps 0.5;
     let v_one = mm256_set1_ps 1;
     let v_size = mm256_set1_epi32 (size' g);
     let v_y = mm256_set1_ps (of_int y);
     let v_x = mm256_set1_ps (of_int x);
     let v_x = mm256_add_ps v_x v_xIncrements;
     v_prevX \<leftarrow> mm256_load_ps g velX (x + y * size' g);
     v_prevY \<leftarrow> mm256_load_ps g velY (x + y * size' g);
     let v_prevX = mm256_mul_ps v_prevX v_scaling;
     let v_prevY = mm256_mul_ps v_prevY v_scaling;
     let v_prevX = mm256_sub_ps v_x v_prevX;
     let v_prevY = mm256_sub_ps v_y v_prevY;
     let v_prevX = mm256_max_ps v_prevX v_minClamp;
     let v_prevX = mm256_min_ps v_prevX v_maxClamp;
     let v_prevY = mm256_max_ps v_prevY v_minClamp;
     let v_prevY = mm256_min_ps v_prevY v_maxClamp;
     let v_prevXRound = mm256_floor_ps v_prevX;
     let v_prevYRound = mm256_floor_ps v_prevY;
     let v_prevXInt = mm256_cvtps_epi32 v_prevXRound;
     let v_prevYInt = mm256_cvtps_epi32 v_prevYRound;
     let v_prevXDecimals = mm256_sub_ps v_prevX v_prevXRound;
     let v_prevYDecimals = mm256_sub_ps v_prevY v_prevYRound;
     let v_prevXRemainingDecimals = mm256_sub_ps v_one v_prevXDecimals;
     let v_prevYRemainingDecimals = mm256_sub_ps v_one v_prevYDecimals;
     let v_prevIndices = mm256_mullo_epi32 v_prevYInt v_size;
     let v_prevIndices = mm256_add_epi32 v_prevIndices v_prevXInt;
     v_middle \<leftarrow> mm256_i32gather_ps g prevArr 0 v_prevIndices;
     v_right \<leftarrow> mm256_i32gather_ps g prevArr 1 v_prevIndices;
     v_down \<leftarrow> mm256_i32gather_ps g prevArr (size' g) v_prevIndices;
     v_downRight \<leftarrow> mm256_i32gather_ps g prevArr (size' g + 1) v_prevIndices;
     let v_middleScaling = mm256_mul_ps v_prevXRemainingDecimals v_prevYRemainingDecimals;
     let v_downScaling = mm256_mul_ps v_prevXRemainingDecimals v_prevYDecimals;
     let v_rightScaling = mm256_mul_ps v_prevXDecimals v_prevYRemainingDecimals;
     let v_downRightScaling = mm256_mul_ps v_prevXDecimals v_prevYDecimals;
     let v_result = mm256_mul_ps v_middle v_middleScaling;
     let v_result = mm256_fmadd_ps v_down v_downScaling v_result;
     let v_result = mm256_fmadd_ps v_right v_rightScaling v_result;
     let v_result = mm256_fmadd_ps v_downRight v_downRightScaling v_result;
     mm256_storeu_ps arr (x + y * size' g) v_result g
   }"

definition advectLoop_cell :: "ptr \<Rightarrow> ptr \<Rightarrow> ptr \<Rightarrow> ptr \<Rightarrow> real \<Rightarrow> real \<Rightarrow> int \<Rightarrow> int \<Rightarrow> FluidGrid \<Rightarrow> FluidGrid option" where
  "advectLoop_cell arr prevArr velX velY scaling maxClamp y x g = do {
     vx \<leftarrow> rd g velX (x + y * size' g);
     let prevX = of_int x - vx * scaling;
     vy \<leftarrow> rd g velY (x + y * size' g);
     let prevY = of_int y - vy * scaling;
     let prevX = clamp prevX 0.5 maxClamp;
     let prevY = clamp prevY 0.5 maxClamp;
     let prevXInt = float_to_int prevX;
     let prevYInt = float_to_int prevY;
     let prevXDecimals = prevX - of_int prevXInt;
     let prevXRemainingDecimals = 1 - prevXDecimals;
     let prevYDecimals = prevY - of_int prevYInt;
     let prevYRemainingDecimals = 1 - prevYDecimals;
     a \<leftarrow> rd g prevArr (prevXInt + prevYInt * size' g);
     b \<leftarrow> rd g prevArr (prevXInt + (prevYInt + 1) * size' g);
     c \<leftarrow> rd g prevArr ((prevXInt + 1) + prevYInt * size' g);
     d \<leftarrow> rd g prevArr ((prevXInt + 1) + (prevYInt + 1) * size' g);
     wr arr (x + y * size' g)
       (prevXRemainingDecimals * (prevYRemainingDecimals * a + prevYDecimals * b) +
        prevXDecimals * (prevYRemainingDecimals * c + prevYDecimals * d)) g
   }"

text \<open>The row loop of \<^verbatim>\<open>advectLoop\<close> runs \<^verbatim>\<open>for (int y = 1; y < size - 1; y++)\<close>: the
  parameters \<^verbatim>\<open>startIndex\<close> and \<^verbatim>\<open>endIndex\<close> are not used.\<close>

definition advectLoop :: "int \<Rightarrow> int \<Rightarrow> ptr \<Rightarrow> ptr \<Rightarrow> ptr \<Rightarrow> ptr \<Rightarrow> real \<Rightarrow> FluidGrid \<Rightarrow> FluidGrid option" where
  "advectLoop startIndex endIndex arr prevArr velX velY dt g =
     (let scaling = dt * of_int (size' g);
          maxClamp = of_int (size' g) - 1.5
      in for_loop 1 (size' g - 1) (\<lambda>y g.
           row_loop (size' g)
             (advectLoop_vec arr prevArr velX velY scaling maxClamp y)
             (advectLoop_cell arr prevArr velX velY scaling maxClamp y) g) g)"

definition advect_pass :: "ptr \<Rightarrow> ptr \<Rightarrow> ptr \<Rightarrow> ptr \<Rightarrow> real \<Rightarrow> FluidGrid \<Rightarrow> FluidGrid option" where
  "advect_pass arr prevArr velX velY dt g =
     computeOnThreads (size' g) (\<lambda>startIndex endIndex.
       advectLoop startIndex endIndex arr prevArr velX velY dt) g"

definition advect :: "Direction \<Rightarrow> ptr \<Rightarrow> ptr \<Rightarrow> ptr \<Rightarrow> ptr \<Rightarrow> real \<Rightarrow> FluidGrid \<Rightarrow> FluidGrid option" where
  "advect direction arr prevArr velX velY dt g = do {
     g \<leftarrow> advect_pass arr prevArr velX velY dt g;
     setBounds direction arr g
   }"

subsection \<open>Rounding\<close>

text \<open>
  \<open>round_to p emin x\<close> is \<open>x\<close> rounded to the nearest number \<open>m * 2 ^ e\<close> with a significand
  of \<open>p\<close> bits and \<open>e \<ge> emin\<close>, ties to the even significand: the rounding of IEEE 754
  arithmetic in its default mode, subnormal numbers included. \<^verbatim>\<open>float\<close> has 24 bits and the
  least exponent -149, \<^verbatim>\<open>double\<close> 53 bits and -1074. Overflow to infinity is not modelled
  (the model holds finite values only). The rounding is written out in \<^verbatim>\<open>fadeDensity\<close> below,
  whose property depends on it.
\<close>

definition ulp_exponent :: "nat \<Rightarrow> int \<Rightarrow> real \<Rightarrow> int" where
  "ulp_exponent p emin x = max (\<lfloor>log 2 \<bar>x\<bar>\<rfloor> - (int p - 1)) emin"

definition round_to :: "nat \<Rightarrow> int \<Rightarrow> real \<Rightarrow> real" where
  "round_to p emin x =
     (let e = ulp_exponent p emin x in
      of_int (round_nearest_even (x / 2 powr of_int e)) * 2 powr of_int e)"

definition to_float :: "real \<Rightarrow> real" where
  "to_float x = round_to 24 (- 149) x"

definition to_double :: "real \<Rightarrow> real" where
  "to_double x = round_to 53 (- 1074) x"

subsection \<open>Fading and the frame\<close>

text \<open>\<^verbatim>\<open>density[i] *= (float)scaledFadeRate\<close>: a single-precision product.\<close>

definition fadeDensity_cell :: "real \<Rightarrow> int \<Rightarrow> int \<Rightarrow> FluidGrid \<Rightarrow> FluidGrid option" where
  "fadeDensity_cell scaledFadeRate y x g = do {
     d \<leftarrow> rd g (density g) (x + y * size' g);
     wr (density g) (x + y * size' g) (to_float (d * to_float scaledFadeRate)) g
   }"

text \<open>\<^verbatim>\<open>double scaledFadeRate = 1 - dt * fadeRate * size\<close>: \<^verbatim>\<open>dt\<close> and \<^verbatim>\<open>size\<close> are converted to
  \<^verbatim>\<open>double\<close> (exactly), and each of the three operations rounds to \<^verbatim>\<open>double\<close>.\<close>

definition fadeDensity :: "real \<Rightarrow> real \<Rightarrow> FluidGrid \<Rightarrow> FluidGrid option" where
  "fadeDensity dt fadeRate g =
     (let scaledFadeRate = to_double (1 - to_double (to_double (dt * fadeRate) * of_int (size' g))) in
      for_loop 1 (size' g - 1) (\<lambda>y g.
        for_loop 1 (size' g - 1) (fadeDensity_cell scaledFadeRate y) g) g)"

definition swap_velocityX :: "FluidGrid \<Rightarrow> FluidGrid" where
  "swap_velocityX g = g\<lparr>velocityX := prevVelocityX g, prevVelocityX := velocityX g\<rparr>"

definition swap_velocityY :: "FluidGrid \<Rightarrow> FluidGrid" where
  "swap_velocityY g = g\<lparr>velocityY := prevVelocityY g, prevVelocityY := velocityY g\<rparr>"

definition swap_density :: "FluidGrid \<Rightarrow> FluidGrid" where
  "swap_density g = g\<lparr>density := prevDensity g, prevDensity := density g\<rparr>"

definition step :: "real \<Rightarrow> int \<Rightarrow> real \<Rightarrow> real \<Rightarrow> real \<Rightarrow> FluidGrid \<Rightarrow> FluidGrid option" where
  "step dt iterations diffusionRate viscosity fadeRate g = do {
     let g = swap_velocityX g;
     g \<leftarrow> diffuse HORIZONTAL iterations (velocityX g) (prevVelocityX g) dt viscosity g;
     let g = swap_velocityY g;
     g \<leftarrow> diffuse VERTICAL iterations (velocityY g) (prevVelocityY g) dt viscosity g;
     g \<leftarrow> project iterations (velocityX g) (velocityY g) (prevVelocityX g) (prevVelocityY g) g;
     let g = swap_velocityX g;
     let g = swap_velocityY g;
     g \<leftarrow> advect HORIZONTAL (velocityX g) (prevVelocityX g) (prevVelocityX g) (prevVelocityY g) dt g;
     g \<leftarrow> advect VERTICAL (velocityY g) (prevVelocityY g) (prevVelocityX g) (prevVelocityY g) dt g;
     g \<leftarrow> project iterations (velocityX g) (velocityY g) (prevVelocityX g) (prevVelocityY g) g;
     let g = swap_density g;
     g \<leftarrow> diffuse NONE iterations (density g) (prevDensity g) dt diffusionRate g;
     let g = swap_density g;
     g \<leftarrow> advect NONE (density g) (prevDensity g) (velocityX g) (velocityY g) dt g;
     fadeDensity dt fadeRate g
   }"

definition getDensity :: "FluidGrid \<Rightarrow> ptr" where
  "getDensity g = density g"

section \<open>Specification vocabulary\<close>

text \<open>
  The predicates and observations the properties below are stated with. \<open>alloc\<close> says
  that an address holds a buffer of \<open>size * size\<close> cells; \<open>peek\<close> is the value a read
  returns (0 where the read is undefined); \<open>cell\<close> and \<open>density_at\<close> read a cell by its
  coordinates; \<open>same_but T\<close> relates two grids that agree on every field and on every buffer
  outside \<open>T\<close>; \<open>zero_buf\<close> and \<open>all_zero\<close> say that a buffer, or each of the six field
  buffers, is allocated and holds zeros only.

  \<open>freshGrid n\<close> is the grid the constructor returns for size \<open>n\<close> when every allocation
  succeeds, and \<open>inkGrid\<close> that grid after one call of \<^verbatim>\<open>addDensity\<close>.

  \<open>pool_inside\<close> and \<open>pool_covers\<close> say that the chunks handed out by the worker pool lie
  within the interior rows \<open>1 \<dots> size - 2\<close> and cover them. The pool that the spec describes
  does not have this property (its chunks partition all the rows, row 0 included); the
  predicates serve to state what a frame does when its stencil kernels stay in bounds.
  \<open>interiorChunks\<close> is a pool with the property, and \<open>interior_pool g\<close> is the grid \<open>g\<close> with
  that pool in place of its own.

  \<open>interior_sum\<close> is the sum of the interior cells of the density field, \<open>is_float\<close> says
  that a real number is a single-precision value (rounding does not change it), and
  \<open>withDensity xs g\<close> is the grid \<open>g\<close> with the list \<open>xs\<close> as the contents of its density
  buffer.
\<close>

definition alloc :: "FluidGrid \<Rightarrow> ptr \<Rightarrow> bool" where
  "alloc g p \<longleftrightarrow> (case mem g p of None \<Rightarrow> False | Some xs \<Rightarrow> int (length xs) = size' g * size' g)"

definition peek :: "FluidGrid \<Rightarrow> ptr \<Rightarrow> int \<Rightarrow> real" where
  "peek g p i = (case rd g p i of None \<Rightarrow> 0 | Some v \<Rightarrow> v)"

definition same_but :: "ptr set \<Rightarrow> FluidGrid \<Rightarrow> FluidGrid \<Rightarrow> bool" where
  "same_but T g g' \<longleftrightarrow> (\<exists>m. g' = g\<lparr>mem := m\<rparr>)
     \<and> (\<forall>p. map_option length (mem g' p) = map_option length (mem g p))
     \<and> (\<forall>p. p \<notin> T \<longrightarrow> mem g' p = mem g p)"

definition inb :: "FluidGrid \<Rightarrow> int \<Rightarrow> bool" where
  "inb g i \<longleftrightarrow> 0 \<le> i \<and> i < size' g * size' g"

definition ok :: "ptr set \<Rightarrow> FluidGrid \<Rightarrow> FluidGrid option \<Rightarrow> bool" where
  "ok T g r \<longleftrightarrow> (\<exists>g'. r = Some g' \<and> same_but T g g')"

definition relaxed :: "FluidGrid \<Rightarrow> ptr \<Rightarrow> ptr \<Rightarrow> real \<Rightarrow> real \<Rightarrow> int \<Rightarrow> int \<Rightarrow> real" where
  "relaxed g arr prevArr k rs x y =
     (peek g prevArr (x + y * size' g)
       + k * (peek g arr (x + (y - 1) * size' g) + peek g arr (x + (y + 1) * size' g)
            + peek g arr ((x - 1) + y * size' g) + peek g arr ((x + 1) + y * size' g))) * rs"

definition bilinear :: "FluidGrid \<Rightarrow> ptr \<Rightarrow> real \<Rightarrow> real \<Rightarrow> real" where
  "bilinear g prevArr px py =
     (let xi = \<lfloor>px\<rfloor>; yi = \<lfloor>py\<rfloor>; dx = px - of_int xi; dy = py - of_int yi in
        (1 - dx) * ((1 - dy) * peek g prevArr (xi + yi * size' g)
                    + dy * peek g prevArr (xi + (yi + 1) * size' g))
        + dx * ((1 - dy) * peek g prevArr ((xi + 1) + yi * size' g)
                + dy * peek g prevArr ((xi + 1) + (yi + 1) * size' g)))"

definition advected :: "FluidGrid \<Rightarrow> ptr \<Rightarrow> ptr \<Rightarrow> ptr \<Rightarrow> real \<Rightarrow> int \<Rightarrow> int \<Rightarrow> real" where
  "advected g prevArr velX velY scaling x y =
     bilinear g prevArr
       (clamp (of_int x - peek g velX (x + y * size' g) * scaling) 0.5 (of_int (size' g) - 1.5))
       (clamp (of_int y - peek g velY (x + y * size' g) * scaling) 0.5 (of_int (size' g) - 1.5))"

definition interior_idx :: "int \<Rightarrow> int set" where
  "interior_idx N = {j. \<exists>x y. 1 \<le> x \<and> x < N - 1 \<and> 1 \<le> y \<and> y < N - 1 \<and> j = x + y * N}"

definition holds :: "int \<Rightarrow> ptr \<Rightarrow> (int \<Rightarrow> int \<Rightarrow> real) \<Rightarrow> int \<Rightarrow> int \<Rightarrow> FluidGrid \<Rightarrow> bool" where
  "holds N t F x y s \<longleftrightarrow> 0 \<le> x \<and> x < N \<and> peek s t (x + y * N) = F x y"

definition pool_inside :: "FluidGrid \<Rightarrow> bool" where
  "pool_inside g \<longleftrightarrow> (\<forall>c \<in> set (threadPool g (size' g)). 1 \<le> fst c \<and> snd c \<le> size' g - 1)"

definition pool_covers :: "FluidGrid \<Rightarrow> bool" where
  "pool_covers g \<longleftrightarrow> (\<forall>y. 1 \<le> y \<and> y < size' g - 1 \<longrightarrow>
      (\<exists>c \<in> set (threadPool g (size' g)). fst c \<le> y \<and> y < snd c))"

definition grown :: "ptr \<Rightarrow> FluidGrid \<Rightarrow> FluidGrid \<Rightarrow> bool" where
  "grown t g s \<longleftrightarrow> same_but {t} g s \<and> (\<forall>j. j \<notin> interior_idx (size' g) \<longrightarrow> peek s t j = peek g t j)"

definition divergence :: "FluidGrid \<Rightarrow> ptr \<Rightarrow> ptr \<Rightarrow> int \<Rightarrow> int \<Rightarrow> real" where
  "divergence g velX velY x y =
     - 0.5 * (peek g velX ((x - 1) + y * size' g) - peek g velX ((x + 1) + y * size' g)
              + peek g velY (x + (y - 1) * size' g) - peek g velY (x + (y + 1) * size' g))
       * (1 / of_int (size' g))"

definition heightMap_done :: "FluidGrid \<Rightarrow> ptr \<Rightarrow> ptr \<Rightarrow> ptr \<Rightarrow> ptr \<Rightarrow> int \<Rightarrow> int \<Rightarrow> FluidGrid \<Rightarrow> bool" where
  "heightMap_done g velX velY p d x y s \<longleftrightarrow>
     holds (size' g) d (divergence g velX velY) x y s \<and> holds (size' g) p (\<lambda>x y. 0) x y s"

definition okc :: "int set \<Rightarrow> ptr \<Rightarrow> FluidGrid \<Rightarrow> FluidGrid option \<Rightarrow> bool" where
  "okc W p g r \<longleftrightarrow> (\<exists>g'. r = Some g' \<and> same_but {p} g g' \<and> (\<forall>j. j \<notin> W \<longrightarrow> peek g' p j = peek g p j))"


definition freshGrid :: "int \<Rightarrow> FluidGrid" where
  "freshGrid n = (case FluidGrid_new (\<lambda>k. True) n of Inr g \<Rightarrow> g)"

definition cell :: "ptr \<Rightarrow> int \<Rightarrow> int \<Rightarrow> FluidGrid \<Rightarrow> real" where
  "cell p x y g = peek g p (x + y * size' g)"

definition inkGrid :: "int \<Rightarrow> int \<Rightarrow> int \<Rightarrow> real \<Rightarrow> FluidGrid" where
  "inkGrid n x y amount = (case addDensity x y amount 1 (freshGrid n) of Some g \<Rightarrow> g)"




definition density_at :: "int \<Rightarrow> int \<Rightarrow> FluidGrid \<Rightarrow> real" where
  "density_at x y g = cell (density g) x y g"


definition interior_sum :: "FluidGrid \<Rightarrow> real" where
  "interior_sum g = (\<Sum>y\<leftarrow>[1..size' g - 2]. \<Sum>x\<leftarrow>[1..size' g - 2]. density_at x y g)"

definition is_float :: "real \<Rightarrow> bool" where
  "is_float v \<longleftrightarrow> to_float v = v"

definition withDensity :: "real list \<Rightarrow> FluidGrid \<Rightarrow> FluidGrid" where
  "withDensity xs g = g\<lparr>mem := (mem g)(density g \<mapsto> xs)\<rparr>"

section \<open>Properties\<close>

lemma idx_bounds:
  fixes x y n :: int
  assumes "0 \<le> x" "x < n" "0 \<le> y" "y < n"
  shows "0 \<le> x + y * n" "x + y * n < n * n"
proof -
  have n: "0 < n" using assms by linarith
  show "0 \<le> x + y * n" using assms n by simp
  have "y * n \<le> (n - 1) * n" using assms n by (intro mult_right_mono) auto
  then show "x + y * n < n * n" using assms by (simp add: algebra_simps)
qed

lemma idx_inj:
  fixes x y x' y' n :: int
  assumes "0 \<le> x" "x < n" "0 \<le> x'" "x' < n" "x + y * n = x' + y' * n"
  shows "x = x' \<and> y = y'"
proof -
  have "(x + y * n) mod n = (x' + y' * n) mod n" using assms(5) by simp
  then have "x mod n = x' mod n" by simp
  then have x: "x = x'" using assms(1-4) by simp
  then have "y * n = y' * n" using assms(5) by simp
  then show ?thesis using x assms by auto
qed

lemma for_loop_inv:
  assumes "I i s"
    and "\<And>j t. i \<le> j \<Longrightarrow> j < n \<Longrightarrow> I j t \<Longrightarrow> \<exists>t'. body j t = Some t' \<and> I (j + 1) t'"
  shows "\<exists>s'. for_loop i n body s = Some s' \<and> I (max i n) s'"
  using assms
proof (induction i n body s rule: for_loop.induct)
  case (1 i n body s)
  show ?case
  proof (cases "i < n")
    case True
    from "1.prems"(2)[of i s] True "1.prems"(1)
    obtain t' where t': "body i s = Some t'" "I (i + 1) t'" by auto
    have "\<exists>s'. for_loop (i + 1) n body t' = Some s' \<and> I (max (i + 1) n) s'"
      using "1.IH"[OF True t'(1) t'(2)] "1.prems"(2) by auto
    then show ?thesis using True t' by (subst for_loop.simps) (auto simp: max_def)
  next
    case False
    then show ?thesis using "1.prems"(1) by (subst for_loop.simps) (auto simp: max_def)
  qed
qed

lemma simd_loop_inv:
  assumes "I x s"
    and "\<And>j t. x \<le> j \<Longrightarrow> j < n \<Longrightarrow> I j t \<Longrightarrow> \<exists>t'. body j t = Some t' \<and> I (j + 8) t'"
  shows "\<exists>x' s'. simd_loop x n body s = Some (x', s') \<and> I x' s' \<and> x \<le> x' \<and> (x' = x \<or> x' < n + 8)"
  using assms
proof (induction x n body s rule: simd_loop.induct)
  case (1 x n body s)
  show ?case
  proof (cases "x < n")
    case True
    from "1.prems"(2)[of x s] True "1.prems"(1)
    obtain t' where t': "body x s = Some t'" "I (x + 8) t'" by auto
    have "\<exists>x' s'. simd_loop (x + 8) n body t' = Some (x', s') \<and> I x' s' \<and> x + 8 \<le> x' \<and> (x' = x + 8 \<or> x' < n + 8)"
      using "1.IH"[OF True t'(1) t'(2)] "1.prems"(2) by auto
    then show ?thesis using True t' by (subst simd_loop.simps) auto
  next
    case False
    then show ?thesis using "1.prems"(1) by (subst simd_loop.simps) auto
  qed
qed

lemma row_loop_inv:
  assumes n: "2 \<le> n" and "I 1 s"
    and vec: "\<And>j t. 1 \<le> j \<Longrightarrow> j < n - 9 \<Longrightarrow> I j t \<Longrightarrow> \<exists>t'. vec j t = Some t' \<and> I (j + 8) t'"
    and scal: "\<And>j t. 1 \<le> j \<Longrightarrow> j < n - 1 \<Longrightarrow> I j t \<Longrightarrow> \<exists>t'. scal j t = Some t' \<and> I (j + 1) t'"
  shows "\<exists>s'. row_loop n vec scal s = Some s' \<and> I (n - 1) s'"
proof -
  from simd_loop_inv[of I 1 s "n - 9" vec, OF assms(2) vec]
  obtain x' s1 where 1: "simd_loop 1 (n - 9) vec s = Some (x', s1)" "I x' s1" "1 \<le> x'" "x' = 1 \<or> x' < n - 9 + 8"
    by blast
  have le: "x' \<le> n - 1" using 1(4) n by auto
  from for_loop_inv[of I x' s1 "n - 1" scal, OF 1(2)] scal 1(3)
  obtain s' where "for_loop x' (n - 1) scal s1 = Some s'" "I (max x' (n - 1)) s'"
    by (meson order_trans)
  then show ?thesis using 1(1) le by (auto simp: row_loop_def max_def)
qed

lemma run_chunks_inv:
  assumes "I D s"
    and "\<And>c D t. c \<in> set cs \<Longrightarrow> I D t \<Longrightarrow>
           \<exists>t'. work (fst c) (snd c) t = Some t' \<and> I (D \<union> {y. fst c \<le> y \<and> y < snd c}) t'"
  shows "\<exists>s'. run_chunks cs work s = Some s' \<and> I (D \<union> (\<Union>c\<in>set cs. {y. fst c \<le> y \<and> y < snd c})) s'"
  using assms
proof (induction cs arbitrary: D s)
  case Nil
  then show ?case by simp
next
  case (Cons c cs)
  from Cons.prems(2)[of c D s] Cons.prems(1)
  obtain t' where t': "work (fst c) (snd c) s = Some t'" "I (D \<union> {y. fst c \<le> y \<and> y < snd c}) t'" by auto
  from Cons.IH[OF t'(2)] Cons.prems(2)
  obtain s' where "run_chunks cs work t' = Some s'"
     "I (D \<union> {y. fst c \<le> y \<and> y < snd c} \<union> (\<Union>c\<in>set cs. {y. fst c \<le> y \<and> y < snd c})) s'"
    by (meson list.set_intros(2))
  then show ?case using t'(1) by (auto simp: Un_assoc)
qed

lemma same_but_refl: "same_but T g g"
  by (auto simp: same_but_def intro: exI[of _ "mem g"])

lemma same_but_trans: "same_but T g g' \<Longrightarrow> same_but T g' g'' \<Longrightarrow> same_but T g g''"
  by (auto simp: same_but_def)

lemma same_but_mono: "same_but T g g' \<Longrightarrow> T \<subseteq> T' \<Longrightarrow> same_but T' g g'"
  by (auto simp: same_but_def)

lemma same_but_fields:
  assumes "same_but T g g'"
  shows "size' g' = size' g" "tmp g' = tmp g" "density g' = density g"
    "prevDensity g' = prevDensity g" "velocityX g' = velocityX g"
    "prevVelocityX g' = prevVelocityX g" "velocityY g' = velocityY g"
    "prevVelocityY g' = prevVelocityY g" "threadPool g' = threadPool g"
  using assms by (auto simp: same_but_def)

lemma same_but_alloc: "same_but T g g' \<Longrightarrow> alloc g' p = alloc g p"
proof -
  assume a: "same_but T g g'"
  then have "map_option length (mem g' p) = map_option length (mem g p)" "size' g' = size' g"
    by (auto simp: same_but_def)
  then show ?thesis by (auto simp: alloc_def split: option.splits)
qed

lemma same_but_rd: "same_but T g g' \<Longrightarrow> p \<notin> T \<Longrightarrow> rd g' p i = rd g p i"
  by (auto simp: same_but_def rd_def)

lemma same_but_peek: "same_but T g g' \<Longrightarrow> p \<notin> T \<Longrightarrow> peek g' p i = peek g p i"
  by (simp add: peek_def same_but_rd)

lemma same_but_mem: "same_but T g g' \<Longrightarrow> p \<notin> T \<Longrightarrow> mem g' p = mem g p"
  by (auto simp: same_but_def)

lemma same_but_eqI:
  assumes sb: "same_but T g g'" and pk: "\<And>p i. p \<in> T \<Longrightarrow> peek g' p i = peek g p i"
  shows "g' = g"
proof -
  from sb obtain m where g': "g' = g\<lparr>mem := m\<rparr>" by (auto simp: same_but_def)
  have "mem g' p = mem g p" for p
  proof (cases "p \<in> T")
    case False
    then show ?thesis using sb by (auto simp: same_but_def)
  next
    case True
    have len: "map_option length (mem g' p) = map_option length (mem g p)"
      using sb by (auto simp: same_but_def)
    show ?thesis
    proof (cases "mem g p")
      case None
      then show ?thesis using len by simp
    next
      case (Some xs)
      then obtain ys where ys: "mem g' p = Some ys" "length ys = length xs" using len by auto
      have "ys ! j = xs ! j" if "j < length xs" for j
        using pk[OF True, of "int j"] that ys Some by (simp add: peek_def rd_def)
      then have "ys = xs" using ys(2) by (simp add: nth_equalityI)
      then show ?thesis using ys Some by simp
    qed
  qed
  then have "mem g' = mem g" by auto
  then show ?thesis using g' by simp
qed

lemma rd_peek:
  "alloc g p \<Longrightarrow> 0 \<le> i \<Longrightarrow> i < size' g * size' g \<Longrightarrow> rd g p i = Some (peek g p i)"
  by (auto simp: alloc_def rd_def peek_def split: option.splits)

lemma wr_ok:
  assumes "alloc g p" "0 \<le> i" "i < size' g * size' g"
  shows "\<exists>g'. wr p i v g = Some g' \<and> same_but {p} g g' \<and> peek g' p i = v
           \<and> (\<forall>j. j \<noteq> i \<longrightarrow> peek g' p j = peek g p j)"
proof -
  from assms obtain xs where xs: "mem g p = Some xs" "int (length xs) = size' g * size' g"
    by (auto simp: alloc_def split: option.splits)
  let ?g = "g\<lparr>mem := (mem g)(p \<mapsto> xs[nat i := v])\<rparr>"
  have w: "wr p i v g = Some ?g" using xs assms by (simp add: wr_def)
  have sb: "same_but {p} g ?g" using xs by (auto simp: same_but_def)
  have p1: "peek ?g p i = v" using xs assms by (simp add: peek_def rd_def)
  have p2: "peek ?g p j = peek g p j" if "j \<noteq> i" for j
    using xs assms that by (auto simp: peek_def rd_def nth_list_update)
  show ?thesis using w sb p1 p2 by blast
qed

lemma length_store_lanes: "length (store_lanes n a v xs) = length xs"
  by (induction n) auto

lemma nth_store_lanes:
  "j < length xs \<Longrightarrow> store_lanes n a v xs ! j = (if a \<le> j \<and> j < a + n then v (j - a) else xs ! j)"
  by (induction n) (auto simp: nth_list_update length_store_lanes less_Suc_eq)

lemma loadu_peek:
  assumes "alloc g p" "0 \<le> i" "i + 8 \<le> size' g * size' g"
  shows "\<exists>v. mm256_loadu_ps g p i = Some v \<and> (\<forall>l<8. v l = peek g p (i + int l))"
proof -
  from assms obtain xs where xs: "mem g p = Some xs" "int (length xs) = size' g * size' g"
    by (auto simp: alloc_def split: option.splits)
  have "mm256_loadu_ps g p i = Some (\<lambda>l. xs ! (nat i + l))"
    using xs assms by (simp add: mm256_loadu_ps_def)
  moreover have "xs ! (nat i + l) = peek g p (i + int l)" if "l < 8" for l
    using xs assms that by (auto simp: peek_def rd_def nat_add_distrib)
  ultimately show ?thesis by auto
qed

lemma storeu_ok:
  assumes "alloc g p" "0 \<le> i" "i + 8 \<le> size' g * size' g"
  shows "\<exists>g'. mm256_storeu_ps p i v g = Some g' \<and> same_but {p} g g'
           \<and> (\<forall>l<8. peek g' p (i + int l) = v l)
           \<and> (\<forall>j. j < i \<or> i + 8 \<le> j \<longrightarrow> peek g' p j = peek g p j)"
proof -
  from assms obtain xs where xs: "mem g p = Some xs" "int (length xs) = size' g * size' g"
    by (auto simp: alloc_def split: option.splits)
  let ?g = "g\<lparr>mem := (mem g)(p \<mapsto> store_lanes 8 (nat i) v xs)\<rparr>"
  have w: "mm256_storeu_ps p i v g = Some ?g" using xs assms by (simp add: mm256_storeu_ps_def)
  have sb: "same_but {p} g ?g" using xs by (auto simp: same_but_def length_store_lanes)
  have p1: "peek ?g p (i + int l) = v l" if "l < 8" for l
    using xs assms that by (auto simp: peek_def rd_def length_store_lanes nth_store_lanes nat_add_distrib)
  have p2: "peek ?g p j = peek g p j" if "j < i \<or> i + 8 \<le> j" for j
    using xs assms that by (auto simp: peek_def rd_def length_store_lanes nth_store_lanes)
  show ?thesis using w sb p1 p2 by blast
qed

lemma gather_peek:
  assumes "alloc g p" "\<forall>l<8. 0 \<le> base + idx l \<and> base + idx l < size' g * size' g"
  shows "\<exists>v. mm256_i32gather_ps g p base idx = Some v \<and> (\<forall>l<8. v l = peek g p (base + idx l))"
proof -
  from assms obtain xs where xs: "mem g p = Some xs" "int (length xs) = size' g * size' g"
    by (auto simp: alloc_def split: option.splits)
  have "list_all (\<lambda>l. 0 \<le> base + idx l \<and> base + idx l < int (length xs)) [0..<8]"
    using assms(2) xs by (auto simp: list_all_iff)
  then have "mm256_i32gather_ps g p base idx = Some (\<lambda>l. xs ! nat (base + idx l))"
    using xs by (simp add: mm256_i32gather_ps_def)
  moreover have "xs ! nat (base + idx l) = peek g p (base + idx l)" if "l < 8" for l
    using xs assms that by (auto simp: peek_def rd_def)
  ultimately show ?thesis by auto
qed

lemma kernel_inv:
  fixes P :: "FluidGrid \<Rightarrow> bool" and C :: "int \<Rightarrow> int \<Rightarrow> FluidGrid \<Rightarrow> bool"
  assumes N: "2 \<le> N" and P0: "P s0" and sz: "\<And>s. P s \<Longrightarrow> size' s = N"
    and scal: "\<And>x y s. a \<le> y \<Longrightarrow> y < b \<Longrightarrow> 1 \<le> x \<Longrightarrow> x < N - 1 \<Longrightarrow> P s \<Longrightarrow>
        \<exists>s'. scal y x s = Some s' \<and> P s' \<and> C x y s' \<and> (\<forall>x' y'. C x' y' s \<longrightarrow> C x' y' s')"
    and vec: "\<And>x y s. a \<le> y \<Longrightarrow> y < b \<Longrightarrow> 1 \<le> x \<Longrightarrow> x < N - 9 \<Longrightarrow> P s \<Longrightarrow>
        \<exists>s'. vec y x s = Some s' \<and> P s' \<and> (\<forall>l. 0 \<le> l \<and> l < 8 \<longrightarrow> C (x + l) y s')
           \<and> (\<forall>x' y'. C x' y' s \<longrightarrow> C x' y' s')"
  shows "\<exists>s'. for_loop a b (\<lambda>y g. row_loop (size' g) (vec y) (scal y) g) s0 = Some s' \<and> P s'
     \<and> (\<forall>x y. a \<le> y \<and> y < b \<and> 1 \<le> x \<and> x < N - 1 \<longrightarrow> C x y s')
     \<and> (\<forall>x y. C x y s0 \<longrightarrow> C x y s')"
proof -
  define I where "I y s \<longleftrightarrow> P s \<and> (\<forall>x y'. a \<le> y' \<and> y' < y \<and> 1 \<le> x \<and> x < N - 1 \<longrightarrow> C x y' s)
     \<and> (\<forall>x y. C x y s0 \<longrightarrow> C x y s)" for y s
  have I0: "I a s0" using P0 by (auto simp: I_def)
  have step: "\<exists>t'. row_loop (size' t) (vec y) (scal y) t = Some t' \<and> I (y + 1) t'"
    if y: "a \<le> y" "y < b" and It: "I y t" for y t
  proof -
    define J where "J x u \<longleftrightarrow> I y u \<and> (\<forall>x'. 1 \<le> x' \<and> x' < x \<longrightarrow> C x' y u)" for x u
    have J1: "J 1 t" using It by (auto simp: J_def)
    have v: "\<exists>u'. vec y j u = Some u' \<and> J (j + 8) u'" if "1 \<le> j" "j < N - 9" "J j u" for j u
    proof -
      from that have Pu: "P u" by (simp add: J_def I_def)
      from vec[OF y that(1,2) Pu] obtain u' where u': "vec y j u = Some u'" "P u'"
        "\<forall>l. 0 \<le> l \<and> l < 8 \<longrightarrow> C (j + l) y u'" "\<forall>x' y'. C x' y' u \<longrightarrow> C x' y' u'" by blast
      have "C x' y u'" if "1 \<le> x'" "x' < j + 8" for x'
      proof (cases "x' < j")
        case True
        then show ?thesis using \<open>J j u\<close> that u'(4) by (auto simp: J_def)
      next
        case False
        then have "0 \<le> x' - j \<and> x' - j < 8" using that by auto
        then have "C (j + (x' - j)) y u'" using u'(3) by blast
        then show ?thesis by simp
      qed
      then have "J (j + 8) u'" using \<open>J j u\<close> u'(2,4) by (auto simp: J_def I_def)
      then show ?thesis using u'(1) by blast
    qed
    have s: "\<exists>u'. scal y j u = Some u' \<and> J (j + 1) u'" if "1 \<le> j" "j < N - 1" "J j u" for j u
    proof -
      from that have Pu: "P u" by (simp add: J_def I_def)
      from scal[OF y that(1,2) Pu] obtain u' where u': "scal y j u = Some u'" "P u'"
        "C j y u'" "\<forall>x' y'. C x' y' u \<longrightarrow> C x' y' u'" by blast
      have "C x' y u'" if "1 \<le> x'" "x' < j + 1" for x'
      proof (cases "x' < j")
        case True
        then show ?thesis using \<open>J j u\<close> that u'(4) by (auto simp: J_def)
      next
        case False
        then have "x' = j" using that by auto
        then show ?thesis using u'(3) by simp
      qed
      then have "J (j + 1) u'" using \<open>J j u\<close> u'(2,4) by (auto simp: J_def I_def)
      then show ?thesis using u'(1) by blast
    qed
    from row_loop_inv[of N J t "vec y" "scal y", OF N J1 v s]
    obtain t' where t': "row_loop N (vec y) (scal y) t = Some t'" "J (N - 1) t'" by blast
    have "I (y + 1) t'"
      unfolding I_def
    proof (intro conjI allI impI)
      show "P t'" using t'(2) by (simp add: J_def I_def)
      show "C x y0 s0 \<Longrightarrow> C x y0 t'" for x y0 using t'(2) by (simp add: J_def I_def)
      show "C x y' t'" if "a \<le> y' \<and> y' < y + 1 \<and> 1 \<le> x \<and> x < N - 1" for x y'
      proof (cases "y' < y")
        case True
        then show ?thesis using t'(2) that by (auto simp: J_def I_def)
      next
        case False
        then have "y' = y" using that by auto
        then show ?thesis using t'(2) that by (auto simp: J_def)
      qed
    qed
    moreover have "size' t = N" using It sz by (simp add: I_def)
    ultimately show ?thesis using t'(1) by auto
  qed
  from for_loop_inv[of I a s0 b "\<lambda>y g. row_loop (size' g) (vec y) (scal y) g", OF I0 step]
  obtain s' where s': "for_loop a b (\<lambda>y g. row_loop (size' g) (vec y) (scal y) g) s0 = Some s'"
    "I (max a b) s'" by blast
  have "C x y s'" if "a \<le> y \<and> y < b \<and> 1 \<le> x \<and> x < N - 1" for x y
    using s'(2) that by (auto simp: I_def max_def split: if_splits)
  then show ?thesis using s' by (auto simp: I_def)
qed

lemma inb_cell: "0 \<le> x \<Longrightarrow> x < size' g \<Longrightarrow> 0 \<le> y \<Longrightarrow> y < size' g \<Longrightarrow> inb g (x + y * size' g)"
  unfolding inb_def using idx_bounds[of x "size' g" y] by simp

lemma inb_lanes: "inb g i \<Longrightarrow> inb g (i + 7) \<Longrightarrow> 0 \<le> i \<and> i + 8 \<le> size' g * size' g"
  by (auto simp: inb_def)

lemma same_but_inb: "same_but T g g' \<Longrightarrow> inb g' i = inb g i"
  by (simp add: inb_def same_but_fields)

lemma okI: "r = Some g' \<Longrightarrow> same_but T g g' \<Longrightarrow> ok T g r"
  by (auto simp: ok_def)

lemma ok_Some: "ok T g (Some g)"
  by (simp add: ok_def same_but_refl)

lemma ok_trans: "same_but T g g1 \<Longrightarrow> ok T g1 r \<Longrightarrow> ok T g r"
  by (auto simp: ok_def intro: same_but_trans)

lemma ok_mono: "ok T g r \<Longrightarrow> T \<subseteq> T' \<Longrightarrow> ok T' g r"
  by (auto simp: ok_def intro: same_but_mono)

lemma ok_bind: "ok T g r \<Longrightarrow> (\<And>g1. same_but T g g1 \<Longrightarrow> ok T g1 (f g1)) \<Longrightarrow> ok T g (r \<bind> f)"
  unfolding ok_def by (metis bind.bind_lunit same_but_trans)

lemma ok_rd_bind:
  "alloc g p \<Longrightarrow> inb g i \<Longrightarrow> (\<And>v. ok T g (f v)) \<Longrightarrow> ok T g (rd g p i \<bind> f)"
  by (simp add: rd_peek inb_def)

lemma ok_wr: "alloc g p \<Longrightarrow> inb g i \<Longrightarrow> p \<in> T \<Longrightarrow> ok T g (wr p i v g)"
  using wr_ok[of g p i v] by (auto simp: ok_def inb_def intro: same_but_mono)

lemma ok_wr_bind:
  "alloc g p \<Longrightarrow> inb g i \<Longrightarrow> p \<in> T \<Longrightarrow> (\<And>g1. same_but T g g1 \<Longrightarrow> ok T g1 (f g1))
     \<Longrightarrow> ok T g (wr p i v g \<bind> f)"
  by (rule ok_bind[OF ok_wr])

lemma ok_loadu_bind:
  "alloc g p \<Longrightarrow> inb g i \<Longrightarrow> inb g (i + 7) \<Longrightarrow> (\<And>v. ok T g (f v)) \<Longrightarrow> ok T g (mm256_loadu_ps g p i \<bind> f)"
  using loadu_peek[of g p i] by (auto simp: inb_def)

lemma ok_storeu:
  "alloc g p \<Longrightarrow> inb g i \<Longrightarrow> inb g (i + 7) \<Longrightarrow> p \<in> T \<Longrightarrow> ok T g (mm256_storeu_ps p i v g)"
  using storeu_ok[of g p i v] by (auto simp: ok_def inb_def intro: same_but_mono)

lemma ok_storeu_bind:
  "alloc g p \<Longrightarrow> inb g i \<Longrightarrow> inb g (i + 7) \<Longrightarrow> p \<in> T \<Longrightarrow> (\<And>g1. same_but T g g1 \<Longrightarrow> ok T g1 (f g1))
     \<Longrightarrow> ok T g (mm256_storeu_ps p i v g \<bind> f)"
  by (rule ok_bind[OF ok_storeu])

lemma ok_gather_bind:
  "alloc g p \<Longrightarrow> (\<And>l. l < 8 \<Longrightarrow> inb g (base + idx l)) \<Longrightarrow> (\<And>v. ok T g (f v))
     \<Longrightarrow> ok T g (mm256_i32gather_ps g p base idx \<bind> f)"
  using gather_peek[of g p base idx] by (auto simp: inb_def)

lemma linearSolveLoop_cell_ok:
  assumes "alloc g arr" "alloc g prevArr" "alloc g (tmp g)"
    and "1 \<le> x" "x < size' g - 1" "1 \<le> y" "y < size' g - 1" and "tmp g \<in> T"
  shows "ok T g (linearSolveLoop_cell arr prevArr k rs y x g)"
  unfolding linearSolveLoop_cell_def Let_def using assms
  by (intro ok_rd_bind ok_wr inb_cell) auto

lemma projectMassConservLoop_cell_ok:
  assumes "alloc g p" "alloc g (velocityX g)" "alloc g (velocityY g)"
    and "1 \<le> x" "x < size' g - 1" "1 \<le> y" "y < size' g - 1" and "velocityX g \<in> T" "velocityY g \<in> T"
  shows "ok T g (projectMassConservLoop_cell p d y x g)"
  unfolding projectMassConservLoop_cell_def Let_def using assms
  by (intro ok_rd_bind ok_wr_bind ok_wr inb_cell)
     (auto simp: same_but_alloc same_but_fields)

lemma inb_cell7:
  "0 \<le> x \<Longrightarrow> x + 7 < size' g \<Longrightarrow> 0 \<le> y \<Longrightarrow> y < size' g \<Longrightarrow> inb g (x + y * size' g + 7)"
  using inb_cell[of "x + 7" g y] by (simp add: algebra_simps)

lemma linearSolveLoop_vec_ok:
  assumes "alloc g arr" "alloc g prevArr" "alloc g (tmp g)"
    and "1 \<le> x" "x < size' g - 9" "1 \<le> y" "y < size' g - 1" and "tmp g \<in> T"
  shows "ok T g (linearSolveLoop_vec arr prevArr vk vrs y x g)"
  unfolding linearSolveLoop_vec_def Let_def using assms
  by (intro ok_loadu_bind ok_storeu inb_cell inb_cell7) auto

lemma projectHeightMapLoop_cell_ok:
  assumes "alloc g velX" "alloc g velY" "alloc g p" "alloc g d"
    and "1 \<le> x" "x < size' g - 1" "1 \<le> y" "y < size' g - 1" and "p \<in> T" "d \<in> T"
  shows "ok T g (projectHeightMapLoop_cell velX velY p d sr y x g)"
  unfolding projectHeightMapLoop_cell_def Let_def using assms
  by (intro ok_rd_bind ok_wr_bind ok_wr inb_cell)
     (auto simp: same_but_alloc same_but_fields)

lemma projectHeightMapLoop_vec_ok:
  assumes "alloc g velX" "alloc g velY" "alloc g p" "alloc g d"
    and "1 \<le> x" "x < size' g - 9" "1 \<le> y" "y < size' g - 1" and "p \<in> T" "d \<in> T"
  shows "ok T g (projectHeightMapLoop_vec velX velY p d vsr y x g)"
  unfolding projectHeightMapLoop_vec_def Let_def using assms
  by (intro ok_loadu_bind ok_storeu_bind ok_storeu inb_cell inb_cell7)
     (auto simp: same_but_alloc same_but_fields)

lemma projectMassConservLoop_vec_ok:
  assumes "alloc g p" "alloc g (velocityX g)" "alloc g (velocityY g)"
    and "1 \<le> x" "x < size' g - 9" "1 \<le> y" "y < size' g - 1" and "velocityX g \<in> T" "velocityY g \<in> T"
  shows "ok T g (projectMassConservLoop_vec p d y x g)"
  unfolding projectMassConservLoop_vec_def Let_def using assms
  by (intro ok_loadu_bind ok_storeu_bind ok_storeu inb_cell inb_cell7)
     (auto simp: same_but_alloc same_but_fields)

lemma fadeDensity_cell_ok:
  assumes "alloc g (density g)"
    and "1 \<le> x" "x < size' g - 1" "1 \<le> y" "y < size' g - 1" and "density g \<in> T"
  shows "ok T g (fadeDensity_cell r y x g)"
  unfolding fadeDensity_cell_def Let_def using assms
  by (intro ok_rd_bind ok_wr inb_cell) auto

lemma setBounds_edge_ok:
  assumes "alloc g arr" "1 \<le> i" "i < size' g - 1" "arr \<in> T"
  shows "ok T g (setBounds_edge dir arr i g)"
  unfolding setBounds_edge_def Let_def using assms
  by (intro ok_rd_bind ok_wr_bind ok_wr inb_cell)
     (auto simp: same_but_alloc same_but_fields)

lemma setBounds_corners_ok:
  assumes "alloc g arr" "2 \<le> size' g" "arr \<in> T"
  shows "ok T g (setBounds_corners arr g)"
  unfolding setBounds_corners_def Let_def using assms
  by (intro ok_rd_bind ok_wr_bind ok_wr inb_cell)
     (auto simp: same_but_alloc same_but_fields)

text \<open>clamp and truncation\<close>

lemma clamp_range: "lo \<le> hi \<Longrightarrow> lo \<le> clamp v lo hi \<and> clamp v lo hi \<le> hi"
  by (auto simp: clamp_def)

lemma minmax_range:
  fixes v lo hi :: real
  shows "lo \<le> hi \<Longrightarrow> lo \<le> (if (if v > lo then v else lo) < hi then (if v > lo then v else lo) else hi)
     \<and> (if (if v > lo then v else lo) < hi then (if v > lo then v else lo) else hi) \<le> hi"
  by auto

lemma floor_in_grid:
  fixes r :: real and n :: int
  assumes "1 / 2 \<le> r" "r \<le> of_int n - 3 / 2"
  shows "0 \<le> \<lfloor>r\<rfloor>" "\<lfloor>r\<rfloor> + 1 < n" 
proof -
  show "0 \<le> \<lfloor>r\<rfloor>" using assms by (simp add: le_floor_iff)
  have "r < of_int (n - 1)" using assms by simp
  then have "\<lfloor>r\<rfloor> < n - 1" by (simp add: floor_less_iff)
  then show "\<lfloor>r\<rfloor> + 1 < n" by simp
qed

lemma float_to_int_floor: "0 \<le> r \<Longrightarrow> float_to_int r = \<lfloor>r\<rfloor>"
  by (simp add: float_to_int_def)

lemma round_nearest_even_int: "round_nearest_even (of_int k) = k"
  by (simp add: round_nearest_even_def)

lemma linearSolveLoop_cell_eff:
  assumes al: "alloc g arr" "alloc g prevArr" "alloc g (tmp g)"
    and xy: "1 \<le> x" "x < size' g - 1" "1 \<le> y" "y < size' g - 1"
  shows "\<exists>g'. linearSolveLoop_cell arr prevArr k rs y x g = Some g' \<and> same_but {tmp g} g g'
     \<and> peek g' (tmp g) (x + y * size' g) = relaxed g arr prevArr k rs x y
     \<and> (\<forall>j. j \<noteq> x + y * size' g \<longrightarrow> peek g' (tmp g) j = peek g (tmp g) j)"
proof -
  have ib: "inb g (x + (y - 1) * size' g)" "inb g (x + (y + 1) * size' g)"
    "inb g ((x - 1) + y * size' g)" "inb g ((x + 1) + y * size' g)" "inb g (x + y * size' g)"
    by (insert xy, (rule inb_cell; linarith)+)
  have "linearSolveLoop_cell arr prevArr k rs y x g
      = wr (tmp g) (x + y * size' g) (relaxed g arr prevArr k rs x y) g"
    unfolding linearSolveLoop_cell_def relaxed_def Let_def
    using ib al by (simp add: rd_peek inb_def)
  then show ?thesis using wr_ok[OF al(3), of "x + y * size' g"] ib(5) by (simp add: inb_def)
qed

lemma linearSolveLoop_vec_eff:
  assumes al: "alloc g arr" "alloc g prevArr" "alloc g (tmp g)"
    and xy: "1 \<le> x" "x < size' g - 9" "1 \<le> y" "y < size' g - 1"
  shows "\<exists>g'. linearSolveLoop_vec arr prevArr (mm256_set1_ps k) (mm256_set1_ps rs) y x g = Some g'
     \<and> same_but {tmp g} g g'
     \<and> (\<forall>l<8. peek g' (tmp g) (x + y * size' g + int l) = relaxed g arr prevArr k rs (x + int l) y)
     \<and> (\<forall>j. j < x + y * size' g \<or> x + y * size' g + 8 \<le> j \<longrightarrow> peek g' (tmp g) j = peek g (tmp g) j)"
proof -
  let ?N = "size' g"
  have ib: "inb g (x + (y - 1) * ?N)" "inb g (x + (y + 1) * ?N)"
    "inb g ((x - 1) + y * ?N)" "inb g ((x + 1) + y * ?N)" "inb g (x + y * ?N)"
    "inb g (x + (y - 1) * ?N + 7)" "inb g (x + (y + 1) * ?N + 7)"
    "inb g ((x - 1) + y * ?N + 7)" "inb g ((x + 1) + y * ?N + 7)" "inb g (x + y * ?N + 7)"
    by (insert xy, (rule inb_cell inb_cell7; linarith)+)
  from loadu_peek[OF al(1), of "x + (y - 1) * ?N"] ib obtain v_up where up:
    "mm256_loadu_ps g arr (x + (y - 1) * ?N) = Some v_up" "\<forall>l<8. v_up l = peek g arr (x + (y - 1) * ?N + int l)"
    by (auto simp: inb_def)
  from loadu_peek[OF al(1), of "(x - 1) + y * ?N"] ib obtain v_left where left:
    "mm256_loadu_ps g arr ((x - 1) + y * ?N) = Some v_left" "\<forall>l<8. v_left l = peek g arr ((x - 1) + y * ?N + int l)"
    by (auto simp: inb_def)
  from loadu_peek[OF al(1), of "(x + 1) + y * ?N"] ib obtain v_right where right:
    "mm256_loadu_ps g arr ((x + 1) + y * ?N) = Some v_right" "\<forall>l<8. v_right l = peek g arr ((x + 1) + y * ?N + int l)"
    by (auto simp: inb_def)
  from loadu_peek[OF al(1), of "x + (y + 1) * ?N"] ib obtain v_down where down:
    "mm256_loadu_ps g arr (x + (y + 1) * ?N) = Some v_down" "\<forall>l<8. v_down l = peek g arr (x + (y + 1) * ?N + int l)"
    by (auto simp: inb_def)
  from loadu_peek[OF al(2), of "x + y * ?N"] ib obtain v_cell where cell:
    "mm256_loadu_ps g prevArr (x + y * ?N) = Some v_cell" "\<forall>l<8. v_cell l = peek g prevArr (x + y * ?N + int l)"
    by (auto simp: inb_def)
  define v where "v = mm256_mul_ps (mm256_fmadd_ps v_down (mm256_set1_ps k)
      (mm256_fmadd_ps v_right (mm256_set1_ps k) (mm256_fmadd_ps v_left (mm256_set1_ps k)
        (mm256_fmadd_ps v_up (mm256_set1_ps k) v_cell)))) (mm256_set1_ps rs)"
  have body: "linearSolveLoop_vec arr prevArr (mm256_set1_ps k) (mm256_set1_ps rs) y x g
      = mm256_storeu_ps (tmp g) (x + y * ?N) v g"
    unfolding linearSolveLoop_vec_def Let_def v_def using up left right down cell by simp
  have lanes: "v l = relaxed g arr prevArr k rs (x + int l) y" if "l < 8" for l
    using that up(2) left(2) right(2) down(2) cell(2)
    by (simp add: v_def relaxed_def mm256_mul_ps_def mm256_fmadd_ps_def mm256_set1_ps_def algebra_simps)
  from storeu_ok[OF al(3), of "x + y * ?N" v] ib
  obtain g' where g': "mm256_storeu_ps (tmp g) (x + y * ?N) v g = Some g'" "same_but {tmp g} g g'"
    "\<forall>l<8. peek g' (tmp g) (x + y * ?N + int l) = v l"
    "\<forall>j. j < x + y * ?N \<or> x + y * ?N + 8 \<le> j \<longrightarrow> peek g' (tmp g) j = peek g (tmp g) j"
    by (auto simp: inb_def)
  show ?thesis using body g' lanes by auto
qed

lemma fadeDensity_cell_eff:
  assumes al: "alloc g (density g)"
    and xy: "1 \<le> x" "x < size' g - 1" "1 \<le> y" "y < size' g - 1"
  shows "\<exists>g'. fadeDensity_cell r y x g = Some g' \<and> same_but {density g} g g'
     \<and> peek g' (density g) (x + y * size' g) = to_float (peek g (density g) (x + y * size' g) * to_float r)
     \<and> (\<forall>j. j \<noteq> x + y * size' g \<longrightarrow> peek g' (density g) j = peek g (density g) j)"
proof -
  have ib: "inb g (x + y * size' g)" using xy by (auto intro!: inb_cell)
  have "fadeDensity_cell r y x g
      = wr (density g) (x + y * size' g) (to_float (peek g (density g) (x + y * size' g) * to_float r)) g"
    unfolding fadeDensity_cell_def using ib al by (simp add: rd_peek inb_def)
  then show ?thesis using wr_ok[OF al, of "x + y * size' g"] ib by (simp add: inb_def)
qed

lemma clamp_grid:
  fixes n :: int
  assumes "3 \<le> n"
  shows "1 / 2 \<le> clamp v 0.5 (of_int n - 1.5)" "clamp v 0.5 (of_int n - 1.5) \<le> of_int n - 3 / 2"
  using assms by (auto simp: clamp_def)

lemma advect_src_inb:
  fixes g :: FluidGrid and vx vy :: real
  assumes N: "3 \<le> size' g"
  defines "px \<equiv> clamp vx 0.5 (of_int (size' g) - 1.5)"
    and "py \<equiv> clamp vy 0.5 (of_int (size' g) - 1.5)"
  shows "inb g (\<lfloor>px\<rfloor> + \<lfloor>py\<rfloor> * size' g)" "inb g (\<lfloor>px\<rfloor> + (\<lfloor>py\<rfloor> + 1) * size' g)"
    "inb g ((\<lfloor>px\<rfloor> + 1) + \<lfloor>py\<rfloor> * size' g)" "inb g ((\<lfloor>px\<rfloor> + 1) + (\<lfloor>py\<rfloor> + 1) * size' g)"
proof -
  have x: "0 \<le> \<lfloor>px\<rfloor>" "\<lfloor>px\<rfloor> + 1 < size' g"
    using floor_in_grid[OF clamp_grid[OF N, of vx]] by (simp_all add: px_def)
  have y: "0 \<le> \<lfloor>py\<rfloor>" "\<lfloor>py\<rfloor> + 1 < size' g"
    using floor_in_grid[OF clamp_grid[OF N, of vy]] by (simp_all add: py_def)
  show "inb g (\<lfloor>px\<rfloor> + \<lfloor>py\<rfloor> * size' g)" "inb g (\<lfloor>px\<rfloor> + (\<lfloor>py\<rfloor> + 1) * size' g)"
    "inb g ((\<lfloor>px\<rfloor> + 1) + \<lfloor>py\<rfloor> * size' g)" "inb g ((\<lfloor>px\<rfloor> + 1) + (\<lfloor>py\<rfloor> + 1) * size' g)"
    by (insert x y, (rule inb_cell; linarith)+)
qed

lemma clamp_nonneg: "3 \<le> (n::int) \<Longrightarrow> 0 \<le> clamp v (1 / 2) (of_int n - 3 / 2)"
  using clamp_grid(1)[of n v] by simp

lemma advectLoop_cell_eff:
  assumes al: "alloc g arr" "alloc g prevArr" "alloc g velX" "alloc g velY"
    and xy: "1 \<le> x" "x < size' g - 1" "1 \<le> y" "y < size' g - 1"
  shows "\<exists>g'. advectLoop_cell arr prevArr velX velY scaling (of_int (size' g) - 1.5) y x g = Some g'
     \<and> same_but {arr} g g'
     \<and> peek g' arr (x + y * size' g) = advected g prevArr velX velY scaling x y
     \<and> (\<forall>j. j \<noteq> x + y * size' g \<longrightarrow> peek g' arr j = peek g arr j)"
proof -
  let ?N = "size' g"
  have N: "3 \<le> ?N" using xy by linarith
  have ib: "inb g (x + y * ?N)" by (insert xy, (rule inb_cell; linarith)+)
  note src = advect_src_inb[OF N, where vx = "of_int x - peek g velX (x + y * ?N) * scaling"
      and vy = "of_int y - peek g velY (x + y * ?N) * scaling"]
  have "advectLoop_cell arr prevArr velX velY scaling (of_int ?N - 1.5) y x g
      = wr arr (x + y * ?N) (advected g prevArr velX velY scaling x y) g"
    unfolding advectLoop_cell_def advected_def bilinear_def Let_def
    using ib al src by (simp add: rd_peek inb_def float_to_int_floor clamp_nonneg[OF N])
  then show ?thesis using wr_ok[OF al(1), of "x + y * ?N"] ib by (simp add: inb_def)
qed

lemma interior_idxI: "1 \<le> x \<Longrightarrow> x < N - 1 \<Longrightarrow> 1 \<le> y \<Longrightarrow> y < N - 1 \<Longrightarrow> x + y * N \<in> interior_idx N"
  by (auto simp: interior_idx_def)

lemma interior_idx_lanes:
  assumes "1 \<le> x" "x < N - 9" "1 \<le> y" "y < N - 1" "\<not> (j < x + y * N \<or> x + y * N + 8 \<le> j)"
  shows "j \<in> interior_idx N"
proof -
  have "j = (x + (j - (x + y * N))) + y * N" by simp
  moreover have "1 \<le> x + (j - (x + y * N))" "x + (j - (x + y * N)) < N - 1" using assms by auto
  ultimately show ?thesis using assms(3,4) unfolding interior_idx_def by blast
qed

lemma holds_after_cell:
  assumes "peek s' t (x0 + y0 * N) = F x0 y0"
    and "\<forall>j. j \<noteq> x0 + y0 * N \<longrightarrow> peek s' t j = peek s t j" and "0 \<le> x0" "x0 < N"
  shows "holds N t F x0 y0 s' \<and> (\<forall>x y. holds N t F x y s \<longrightarrow> holds N t F x y s')"
proof -
  have "holds N t F x y s'" if h: "holds N t F x y s" for x y
  proof (cases "x + y * N = x0 + y0 * N")
    case True
    then have "x = x0 \<and> y = y0" using idx_inj[of x N x0 y y0] h assms(3,4) by (simp add: holds_def)
    then show ?thesis using assms by (simp add: holds_def)
  next
    case False
    then show ?thesis using h assms(2) by (simp add: holds_def)
  qed
  then show ?thesis using assms by (simp add: holds_def)
qed

lemma holds_after_lanes:
  assumes v: "\<forall>l<8. peek s' t (x0 + y0 * N + int l) = F (x0 + int l) y0"
    and o: "\<forall>j. j < x0 + y0 * N \<or> x0 + y0 * N + 8 \<le> j \<longrightarrow> peek s' t j = peek s t j"
    and x0: "0 \<le> x0" "x0 + 8 \<le> N"
  shows "(\<forall>l. 0 \<le> l \<and> l < 8 \<longrightarrow> holds N t F (x0 + l) y0 s') \<and> (\<forall>x y. holds N t F x y s \<longrightarrow> holds N t F x y s')"
proof -
  have new: "holds N t F (x0 + l) y0 s'" if "0 \<le> l" "l < 8" for l :: int
  proof -
    have "nat l < 8" using that by auto
    then have "peek s' t (x0 + y0 * N + int (nat l)) = F (x0 + int (nat l)) y0" using v by blast
    then show ?thesis using that x0 by (simp add: holds_def algebra_simps)
  qed
  have old: "holds N t F x y s'" if h: "holds N t F x y s" for x y
  proof (cases "x + y * N < x0 + y0 * N \<or> x0 + y0 * N + 8 \<le> x + y * N")
    case True
    with o have "peek s' t (x + y * N) = peek s t (x + y * N)" by blast
    then show ?thesis using h by (simp add: holds_def)
  next
    case False
    define l where "l = x + y * N - (x0 + y0 * N)"
    have l: "0 \<le> l" "l < 8" using False by (auto simp: l_def)
    have "x + y * N = (x0 + l) + y0 * N" by (simp add: l_def)
    then have "x = x0 + l \<and> y = y0" using idx_inj[of x N "x0 + l" y y0] h l x0 by (simp add: holds_def)
    then show ?thesis using new[OF l] by simp
  qed
  show ?thesis using new old by blast
qed

lemma kernel_fun:
  assumes N: "2 \<le> N" and base: "same_but {t} g0 s0" "size' g0 = N" and ab: "1 \<le> a" "b \<le> N - 1"
    and scal: "\<And>x y s. a \<le> y \<Longrightarrow> y < b \<Longrightarrow> 1 \<le> x \<Longrightarrow> x < N - 1 \<Longrightarrow> same_but {t} g0 s \<Longrightarrow>
        \<exists>s'. scal y x s = Some s' \<and> same_but {t} s s' \<and> peek s' t (x + y * N) = F x y
          \<and> (\<forall>j. j \<noteq> x + y * N \<longrightarrow> peek s' t j = peek s t j)"
    and vec: "\<And>x y s. a \<le> y \<Longrightarrow> y < b \<Longrightarrow> 1 \<le> x \<Longrightarrow> x < N - 9 \<Longrightarrow> same_but {t} g0 s \<Longrightarrow>
        \<exists>s'. vec y x s = Some s' \<and> same_but {t} s s'
          \<and> (\<forall>l<8. peek s' t (x + y * N + int l) = F (x + int l) y)
          \<and> (\<forall>j. j < x + y * N \<or> x + y * N + 8 \<le> j \<longrightarrow> peek s' t j = peek s t j)"
  shows "\<exists>s'. for_loop a b (\<lambda>y g. row_loop (size' g) (vec y) (scal y) g) s0 = Some s'
     \<and> same_but {t} g0 s'
     \<and> (\<forall>j. j \<notin> interior_idx N \<longrightarrow> peek s' t j = peek s0 t j)
     \<and> (\<forall>x y. a \<le> y \<and> y < b \<and> 1 \<le> x \<and> x < N - 1 \<longrightarrow> holds N t F x y s')
     \<and> (\<forall>x y. holds N t F x y s0 \<longrightarrow> holds N t F x y s')"
proof -
  define P where "P s \<longleftrightarrow> same_but {t} g0 s \<and> (\<forall>j. j \<notin> interior_idx N \<longrightarrow> peek s t j = peek s0 t j)" for s
  have P0: "P s0" using base(1) by (simp add: P_def)
  have sz: "size' s = N" if "P s" for s using that base(2) by (auto simp: P_def same_but_fields)
  have sc: "\<exists>s'. scal y x s = Some s' \<and> P s' \<and> holds N t F x y s'
      \<and> (\<forall>x' y'. holds N t F x' y' s \<longrightarrow> holds N t F x' y' s')"
    if a: "a \<le> y" "y < b" "1 \<le> x" "x < N - 1" and p: "P s" for x y s
  proof -
    from p have sb: "same_but {t} g0 s" by (simp add: P_def)
    from scal[OF a sb] obtain s' where s': "scal y x s = Some s'" "same_but {t} s s'"
      "peek s' t (x + y * N) = F x y" "\<forall>j. j \<noteq> x + y * N \<longrightarrow> peek s' t j = peek s t j" by blast
    have int: "x + y * N \<in> interior_idx N" using a ab by (intro interior_idxI) auto
    have "peek s' t j = peek s0 t j" if "j \<notin> interior_idx N" for j
    proof -
      have "j \<noteq> x + y * N" using that int by auto
      then have "peek s' t j = peek s t j" using s'(4) by blast
      then show ?thesis using p that by (simp add: P_def)
    qed
    then have "P s'" using same_but_trans[OF sb s'(2)] by (simp add: P_def)
    moreover have "holds N t F x y s' \<and> (\<forall>x' y'. holds N t F x' y' s \<longrightarrow> holds N t F x' y' s')"
      using holds_after_cell[where F = F and s' = s' and s = s and t = t and N = N, OF s'(3,4)] a by simp
    ultimately show ?thesis using s'(1) by blast
  qed
  have vc: "\<exists>s'. vec y x s = Some s' \<and> P s' \<and> (\<forall>l. 0 \<le> l \<and> l < 8 \<longrightarrow> holds N t F (x + l) y s')
      \<and> (\<forall>x' y'. holds N t F x' y' s \<longrightarrow> holds N t F x' y' s')"
    if a: "a \<le> y" "y < b" "1 \<le> x" "x < N - 9" and p: "P s" for x y s
  proof -
    from p have sb: "same_but {t} g0 s" by (simp add: P_def)
    from vec[OF a sb] obtain s' where s': "vec y x s = Some s'" "same_but {t} s s'"
      "\<forall>l<8. peek s' t (x + y * N + int l) = F (x + int l) y"
      "\<forall>j. j < x + y * N \<or> x + y * N + 8 \<le> j \<longrightarrow> peek s' t j = peek s t j" by blast
    have "peek s' t j = peek s0 t j" if "j \<notin> interior_idx N" for j
    proof -
      have "j < x + y * N \<or> x + y * N + 8 \<le> j"
        using interior_idx_lanes[of x N y j] a ab that by auto
      then have "peek s' t j = peek s t j" using s'(4) by blast
      then show ?thesis using p that by (simp add: P_def)
    qed
    then have "P s'" using same_but_trans[OF sb s'(2)] by (simp add: P_def)
    moreover have "(\<forall>l. 0 \<le> l \<and> l < 8 \<longrightarrow> holds N t F (x + l) y s')
        \<and> (\<forall>x' y'. holds N t F x' y' s \<longrightarrow> holds N t F x' y' s')"
      using holds_after_lanes[where F = F and s' = s' and s = s and t = t and N = N, OF s'(3,4)] a by simp
    ultimately show ?thesis using s'(1) by blast
  qed
  from kernel_inv[where P = P and C = "holds N t F" and vec = vec and scal = scal and a = a and b = b,
      OF N P0 sz sc vc]
  show ?thesis by (auto simp: P_def)
qed

lemma kernel_ok:
  assumes N: "2 \<le> size' g"
    and scal: "\<And>x y s. a \<le> y \<Longrightarrow> y < b \<Longrightarrow> 1 \<le> x \<Longrightarrow> x < size' g - 1 \<Longrightarrow> same_but T g s \<Longrightarrow>
        ok T s (scal y x s)"
    and vec: "\<And>x y s. a \<le> y \<Longrightarrow> y < b \<Longrightarrow> 1 \<le> x \<Longrightarrow> x < size' g - 9 \<Longrightarrow> same_but T g s \<Longrightarrow>
        ok T s (vec y x s)"
  shows "ok T g (for_loop a b (\<lambda>y g. row_loop (size' g) (vec y) (scal y) g) g)"
proof -
  define C :: "int \<Rightarrow> int \<Rightarrow> FluidGrid \<Rightarrow> bool" where "C x y s = True" for x y s
  have sz: "size' s = size' g" if "same_but T g s" for s using that by (simp add: same_but_fields)
  have sc: "\<exists>s'. scal y x s = Some s' \<and> same_but T g s' \<and> C x y s' \<and> (\<forall>x' y'. C x' y' s \<longrightarrow> C x' y' s')"
    if "a \<le> y" "y < b" "1 \<le> x" "x < size' g - 1" "same_but T g s" for x y s
    using scal[OF that] that(5) by (auto simp: ok_def C_def intro: same_but_trans)
  have vc: "\<exists>s'. vec y x s = Some s' \<and> same_but T g s' \<and> (\<forall>l. 0 \<le> l \<and> l < 8 \<longrightarrow> C (x + l) y s')
       \<and> (\<forall>x' y'. C x' y' s \<longrightarrow> C x' y' s')"
    if "a \<le> y" "y < b" "1 \<le> x" "x < size' g - 9" "same_but T g s" for x y s
    using vec[OF that] that(5) by (auto simp: ok_def C_def intro: same_but_trans)
  from kernel_inv[where P = "same_but T g" and C = C and vec = vec and scal = scal and a = a and b = b,
      OF N same_but_refl sz sc vc]
  show ?thesis by (auto simp: ok_def)
qed

lemma run_chunks_ok:
  assumes "\<And>c s. c \<in> set cs \<Longrightarrow> same_but T g s \<Longrightarrow> ok T s (work (fst c) (snd c) s)"
  shows "ok T g (run_chunks cs work g)"
proof -
  define I :: "int set \<Rightarrow> FluidGrid \<Rightarrow> bool" where "I D s = same_but T g s" for D s
  have I0: "I {} g" by (simp add: I_def same_but_refl)
  have st: "\<exists>t'. work (fst c) (snd c) u = Some t' \<and> I (D \<union> {y. fst c \<le> y \<and> y < snd c}) t'"
    if "c \<in> set cs" "I D u" for c D u
    using assms[OF that(1), of u] that(2) by (auto simp: ok_def I_def intro: same_but_trans)
  from run_chunks_inv[where I = I and work = work and cs = cs, OF I0 st] show ?thesis by (auto simp: ok_def I_def)
qed

lemma run_chunks_cover:
  assumes base: "P s0"
    and work: "\<And>c s. c \<in> set cs \<Longrightarrow> P s \<Longrightarrow>
        \<exists>s'. work (fst c) (snd c) s = Some s' \<and> P s'
          \<and> (\<forall>x y. fst c \<le> y \<and> y < snd c \<and> 1 \<le> x \<and> x < N - 1 \<longrightarrow> C x y s')
          \<and> (\<forall>x y. C x y s \<longrightarrow> C x y s')"
  shows "\<exists>s'. run_chunks cs work s0 = Some s' \<and> P s'
     \<and> (\<forall>x y. (\<exists>c\<in>set cs. fst c \<le> y \<and> y < snd c) \<and> 1 \<le> x \<and> x < N - 1 \<longrightarrow> C x y s')"
proof -
  define I where "I D s \<longleftrightarrow> P s \<and> (\<forall>x y. y \<in> D \<and> 1 \<le> x \<and> x < N - 1 \<longrightarrow> C x y s)"
    for D :: "int set" and s
  have I0: "I {} s0" using base by (simp add: I_def)
  have st: "\<exists>t'. work (fst c) (snd c) u = Some t' \<and> I (D \<union> {y. fst c \<le> y \<and> y < snd c}) t'"
    if "c \<in> set cs" "I D u" for c D u
  proof -
    from that(2) have sb: "P u" by (simp add: I_def)
    from work[OF that(1) sb] obtain s' where s': "work (fst c) (snd c) u = Some s'" "P s'"
      "\<forall>x y. fst c \<le> y \<and> y < snd c \<and> 1 \<le> x \<and> x < N - 1 \<longrightarrow> C x y s'"
      "\<forall>x y. C x y u \<longrightarrow> C x y s'"
      by blast
    have "I (D \<union> {y. fst c \<le> y \<and> y < snd c}) s'"
      using s'(2,3,4) that(2) by (auto simp: I_def)
    then show ?thesis using s'(1) by blast
  qed
  from run_chunks_inv[where I = I and work = work and cs = cs, OF I0 st]
  obtain s' where "run_chunks cs work s0 = Some s'"
    "I ({} \<union> (\<Union>c\<in>set cs. {y. fst c \<le> y \<and> y < snd c})) s'" by blast
  then show ?thesis by (auto simp: I_def)
qed


lemma same_but_pool:
  "same_but T g s \<Longrightarrow> pool_inside s = pool_inside g"
  "same_but T g s \<Longrightarrow> pool_covers s = pool_covers g"
  by (simp_all add: pool_inside_def pool_covers_def same_but_fields)

subsection \<open>linearSolveLoop\<close>

lemma relaxed_same:
  "same_but {t} g s \<Longrightarrow> t \<noteq> arr \<Longrightarrow> t \<noteq> prevArr \<Longrightarrow>
     relaxed s arr prevArr k rs x y = relaxed g arr prevArr k rs x y"
  by (simp add: relaxed_def same_but_peek same_but_fields)

lemma grown_refl: "grown t g g"
  by (simp add: grown_def same_but_refl)

lemma grown_same_but: "grown t g s \<Longrightarrow> same_but {t} g s"
  by (simp add: grown_def)

lemma grown_boundary: "grown t g s \<Longrightarrow> j \<notin> interior_idx (size' g) \<Longrightarrow> peek s t j = peek g t j"
  by (simp add: grown_def)

lemma linearSolveLoop_fun:
  assumes al: "alloc g arr" "alloc g prevArr" "alloc g (tmp g)"
    and ne: "tmp g \<noteq> arr" "tmp g \<noteq> prevArr"
    and N: "2 \<le> size' g" and ab: "1 \<le> a" "b \<le> size' g - 1"
    and s: "grown (tmp g) g s"
  shows "\<exists>s'. linearSolveLoop a b arr prevArr k (mm256_set1_ps k) rs (mm256_set1_ps rs) s = Some s'
     \<and> grown (tmp g) g s'
     \<and> (\<forall>x y. a \<le> y \<and> y < b \<and> 1 \<le> x \<and> x < size' g - 1
           \<longrightarrow> holds (size' g) (tmp g) (relaxed g arr prevArr k rs) x y s')
     \<and> (\<forall>x y. holds (size' g) (tmp g) (relaxed g arr prevArr k rs) x y s
           \<longrightarrow> holds (size' g) (tmp g) (relaxed g arr prevArr k rs) x y s')"
proof -
  from s have sb: "same_but {tmp g} g s" by (simp add: grown_def)
  have sc: "\<exists>s'. linearSolveLoop_cell arr prevArr k rs y x u = Some s' \<and> same_but {tmp g} u s'
      \<and> peek s' (tmp g) (x + y * size' g) = relaxed g arr prevArr k rs x y
      \<and> (\<forall>j. j \<noteq> x + y * size' g \<longrightarrow> peek s' (tmp g) j = peek u (tmp g) j)"
    if a: "a \<le> y" "y < b" "1 \<le> x" "x < size' g - 1" "same_but {tmp g} g u" for x y u
  proof -
    have f: "size' u = size' g" "tmp u = tmp g" using a(5) by (simp_all add: same_but_fields)
    have alu: "alloc u arr" "alloc u prevArr" "alloc u (tmp u)"
      using al a(5) by (simp_all add: same_but_alloc f)
    from linearSolveLoop_cell_eff[OF alu, of x y k rs] a ab
    show ?thesis by (simp add: f relaxed_same[OF a(5) ne])
  qed
  have vc: "\<exists>s'. linearSolveLoop_vec arr prevArr (mm256_set1_ps k) (mm256_set1_ps rs) y x u = Some s'
      \<and> same_but {tmp g} u s'
      \<and> (\<forall>l<8. peek s' (tmp g) (x + y * size' g + int l) = relaxed g arr prevArr k rs (x + int l) y)
      \<and> (\<forall>j. j < x + y * size' g \<or> x + y * size' g + 8 \<le> j \<longrightarrow> peek s' (tmp g) j = peek u (tmp g) j)"
    if a: "a \<le> y" "y < b" "1 \<le> x" "x < size' g - 9" "same_but {tmp g} g u" for x y u
  proof -
    have f: "size' u = size' g" "tmp u = tmp g" using a(5) by (simp_all add: same_but_fields)
    have alu: "alloc u arr" "alloc u prevArr" "alloc u (tmp u)"
      using al a(5) by (simp_all add: same_but_alloc f)
    from linearSolveLoop_vec_eff[OF alu, of x y k rs] a ab
    show ?thesis by (simp add: f relaxed_same[OF a(5) ne])
  qed
  from kernel_fun[where t = "tmp g" and F = "relaxed g arr prevArr k rs" and a = a and b = b
      and vec = "linearSolveLoop_vec arr prevArr (mm256_set1_ps k) (mm256_set1_ps rs)"
      and scal = "linearSolveLoop_cell arr prevArr k rs", OF N sb refl ab sc vc]
  show ?thesis using s by (auto simp: linearSolveLoop_def grown_def)
qed

lemma linearSolveLoop_ok:
  assumes al: "alloc g arr" "alloc g prevArr" "alloc g (tmp g)"
    and N: "2 \<le> size' g" and ab: "1 \<le> a" "b \<le> size' g - 1" and T: "tmp g \<in> T"
  shows "ok T g (linearSolveLoop a b arr prevArr k vk rs vrs g)"
  unfolding linearSolveLoop_def
proof (rule kernel_ok[OF N])
  fix x y u
  assume a: "a \<le> y" "y < b" "1 \<le> x" "x < size' g - 1" "same_but T g u"
  show "ok T u (linearSolveLoop_cell arr prevArr k rs y x u)"
    using a ab al T by (intro linearSolveLoop_cell_ok) (simp_all add: same_but_alloc same_but_fields)
next
  fix x y u
  assume a: "a \<le> y" "y < b" "1 \<le> x" "x < size' g - 9" "same_but T g u"
  show "ok T u (linearSolveLoop_vec arr prevArr vk vrs y x u)"
    using a ab al T by (intro linearSolveLoop_vec_ok) (simp_all add: same_but_alloc same_but_fields)
qed

lemma linearSolve_pass_ok:
  assumes al: "alloc g arr" "alloc g prevArr" "alloc g (tmp g)"
    and N: "2 \<le> size' g" and pool: "pool_inside g" and T: "tmp g \<in> T"
  shows "ok T g (linearSolve_pass arr prevArr k rs g)"
  unfolding linearSolve_pass_def computeOnThreads_def
proof (rule run_chunks_ok)
  fix c u
  assume c: "c \<in> set (threadPool g (size' g))" "same_but T g u"
  have f: "size' u = size' g" "tmp u = tmp g" using c(2) by (simp_all add: same_but_fields)
  show "ok T u (linearSolveLoop (fst c) (snd c) arr prevArr k (mm256_set1_ps k) rs (mm256_set1_ps rs) u)"
    using c al N pool T
    by (intro linearSolveLoop_ok) (auto simp: same_but_alloc f pool_inside_def)
qed

lemma linearSolve_pass_fun:
  assumes al: "alloc g arr" "alloc g prevArr" "alloc g (tmp g)"
    and ne: "tmp g \<noteq> arr" "tmp g \<noteq> prevArr"
    and N: "2 \<le> size' g" and pool: "pool_inside g" "pool_covers g"
  shows "\<exists>g'. linearSolve_pass arr prevArr k rs g = Some g' \<and> grown (tmp g) g g'
     \<and> (\<forall>x y. 1 \<le> x \<and> x < size' g - 1 \<and> 1 \<le> y \<and> y < size' g - 1
           \<longrightarrow> peek g' (tmp g) (x + y * size' g) = relaxed g arr prevArr k rs x y)"
proof -
  have w: "\<exists>s'. linearSolveLoop (fst c) (snd c) arr prevArr k (mm256_set1_ps k) rs (mm256_set1_ps rs) s = Some s'
     \<and> grown (tmp g) g s'
     \<and> (\<forall>x y. fst c \<le> y \<and> y < snd c \<and> 1 \<le> x \<and> x < size' g - 1
           \<longrightarrow> holds (size' g) (tmp g) (relaxed g arr prevArr k rs) x y s')
     \<and> (\<forall>x y. holds (size' g) (tmp g) (relaxed g arr prevArr k rs) x y s
           \<longrightarrow> holds (size' g) (tmp g) (relaxed g arr prevArr k rs) x y s')"
    if "c \<in> set (threadPool g (size' g))" "grown (tmp g) g s" for c s
    using that pool(1) by (intro linearSolveLoop_fun[OF al ne N]) (auto simp: pool_inside_def)
  from run_chunks_cover[where work = "\<lambda>a b. linearSolveLoop a b arr prevArr k (mm256_set1_ps k) rs (mm256_set1_ps rs)"
      and cs = "threadPool g (size' g)" and C = "holds (size' g) (tmp g) (relaxed g arr prevArr k rs)"
      and N = "size' g" and P = "grown (tmp g) g",
      OF grown_refl w]
  obtain g' where g': "run_chunks (threadPool g (size' g))
      (\<lambda>a b. linearSolveLoop a b arr prevArr k (mm256_set1_ps k) rs (mm256_set1_ps rs)) g = Some g'"
    "grown (tmp g) g g'"
    "\<forall>x y. (\<exists>c\<in>set (threadPool g (size' g)). fst c \<le> y \<and> y < snd c) \<and> 1 \<le> x \<and> x < size' g - 1
        \<longrightarrow> holds (size' g) (tmp g) (relaxed g arr prevArr k rs) x y g'"
    by blast
  have "peek g' (tmp g) (x + y * size' g) = relaxed g arr prevArr k rs x y"
    if "1 \<le> x \<and> x < size' g - 1 \<and> 1 \<le> y \<and> y < size' g - 1" for x y
    using g'(3) pool(2) that by (auto simp: pool_covers_def holds_def)
  then show ?thesis using g'(1,2) by (auto simp: linearSolve_pass_def computeOnThreads_def)
qed

subsection \<open>projectHeightMapLoop\<close>

lemma projectHeightMapLoop_cell_eff:
  assumes al: "alloc g velX" "alloc g velY" "alloc g p" "alloc g d" and ne: "p \<noteq> d"
    and xy: "1 \<le> x" "x < size' g - 1" "1 \<le> y" "y < size' g - 1"
  shows "\<exists>g'. projectHeightMapLoop_cell velX velY p d (1 / of_int (size' g)) y x g = Some g'
     \<and> same_but {p, d} g g'
     \<and> peek g' d (x + y * size' g) = divergence g velX velY x y
     \<and> peek g' p (x + y * size' g) = 0
     \<and> (\<forall>j. j \<noteq> x + y * size' g \<longrightarrow> peek g' d j = peek g d j \<and> peek g' p j = peek g p j)"
proof -
  let ?N = "size' g"
  have ib: "inb g (x + (y - 1) * ?N)" "inb g (x + (y + 1) * ?N)"
    "inb g ((x - 1) + y * ?N)" "inb g ((x + 1) + y * ?N)" "inb g (x + y * ?N)"
    by (insert xy, (rule inb_cell; linarith)+)
  have body: "projectHeightMapLoop_cell velX velY p d (1 / of_int ?N) y x g
      = Option.bind (wr d (x + y * ?N) (divergence g velX velY x y) g) (\<lambda>g1. wr p (x + y * size' g1) 0 g1)"
    unfolding projectHeightMapLoop_cell_def divergence_def Let_def
    using ib al by (simp add: rd_peek inb_def)
  from wr_ok[OF al(4), of "x + y * ?N" "divergence g velX velY x y"] ib(5)
  obtain g1 where g1: "wr d (x + y * ?N) (divergence g velX velY x y) g = Some g1"
    "same_but {d} g g1" "peek g1 d (x + y * ?N) = divergence g velX velY x y"
    "\<forall>j. j \<noteq> x + y * ?N \<longrightarrow> peek g1 d j = peek g d j"
    by (auto simp: inb_def)
  have f1: "size' g1 = ?N" "alloc g1 p" using g1(2) al by (simp_all add: same_but_fields same_but_alloc)
  from wr_ok[OF f1(2), of "x + y * ?N" 0] ib(5) f1(1)
  obtain g2 where g2: "wr p (x + y * ?N) 0 g1 = Some g2"
    "same_but {p} g1 g2" "peek g2 p (x + y * ?N) = 0"
    "\<forall>j. j \<noteq> x + y * ?N \<longrightarrow> peek g2 p j = peek g1 p j"
    by (auto simp: inb_def)
  have sb: "same_but {p, d} g g2"
    using same_but_trans[OF same_but_mono[OF g1(2)] same_but_mono[OF g2(2)], of "{p, d}"] by simp
  have pd: "peek g2 d j = peek g1 d j" "peek g1 p j = peek g p j" for j
    using same_but_peek[OF g2(2), of d j] same_but_peek[OF g1(2), of p j] ne by simp_all
  show ?thesis using body g1 g2 sb pd f1(1) by simp
qed

lemma projectHeightMapLoop_vec_eff:
  assumes al: "alloc g velX" "alloc g velY" "alloc g p" "alloc g d" and ne: "p \<noteq> d"
    and xy: "1 \<le> x" "x < size' g - 9" "1 \<le> y" "y < size' g - 1"
  shows "\<exists>g'. projectHeightMapLoop_vec velX velY p d (mm256_set1_ps (1 / of_int (size' g))) y x g = Some g'
     \<and> same_but {p, d} g g'
     \<and> (\<forall>l<8. peek g' d (x + y * size' g + int l) = divergence g velX velY (x + int l) y
             \<and> peek g' p (x + y * size' g + int l) = 0)
     \<and> (\<forall>j. j < x + y * size' g \<or> x + y * size' g + 8 \<le> j
             \<longrightarrow> peek g' d j = peek g d j \<and> peek g' p j = peek g p j)"
proof -
  let ?N = "size' g"
  have ib: "inb g (x + (y - 1) * ?N)" "inb g (x + (y + 1) * ?N)"
    "inb g ((x - 1) + y * ?N)" "inb g ((x + 1) + y * ?N)" "inb g (x + y * ?N)"
    "inb g (x + (y - 1) * ?N + 7)" "inb g (x + (y + 1) * ?N + 7)"
    "inb g ((x - 1) + y * ?N + 7)" "inb g ((x + 1) + y * ?N + 7)" "inb g (x + y * ?N + 7)"
    by (insert xy, (rule inb_cell inb_cell7; linarith)+)
  from loadu_peek[OF al(2), of "x + (y - 1) * ?N"] ib obtain v_up where up:
    "mm256_loadu_ps g velY (x + (y - 1) * ?N) = Some v_up" "\<forall>l<8. v_up l = peek g velY (x + (y - 1) * ?N + int l)"
    by (auto simp: inb_def)
  from loadu_peek[OF al(2), of "x + (y + 1) * ?N"] ib obtain v_down where down:
    "mm256_loadu_ps g velY (x + (y + 1) * ?N) = Some v_down" "\<forall>l<8. v_down l = peek g velY (x + (y + 1) * ?N + int l)"
    by (auto simp: inb_def)
  from loadu_peek[OF al(1), of "(x - 1) + y * ?N"] ib obtain v_left where left:
    "mm256_loadu_ps g velX ((x - 1) + y * ?N) = Some v_left" "\<forall>l<8. v_left l = peek g velX ((x - 1) + y * ?N + int l)"
    by (auto simp: inb_def)
  from loadu_peek[OF al(1), of "(x + 1) + y * ?N"] ib obtain v_right where right:
    "mm256_loadu_ps g velX ((x + 1) + y * ?N) = Some v_right" "\<forall>l<8. v_right l = peek g velX ((x + 1) + y * ?N + int l)"
    by (auto simp: inb_def)
  define v where "v = mm256_mul_ps (mm256_mul_ps (mm256_add_ps (mm256_sub_ps v_left v_right)
      (mm256_sub_ps v_up v_down)) (mm256_set1_ps (- 0.5))) (mm256_set1_ps (1 / of_int ?N))"
  have body: "projectHeightMapLoop_vec velX velY p d (mm256_set1_ps (1 / of_int ?N)) y x g
      = Option.bind (mm256_storeu_ps d (x + y * ?N) v g)
          (\<lambda>g1. mm256_storeu_ps p (x + y * size' g1) mm256_setzero_ps g1)"
    unfolding projectHeightMapLoop_vec_def Let_def v_def using up left right down by simp
  have lanes: "v l = divergence g velX velY (x + int l) y" if "l < 8" for l
    using that up(2) left(2) right(2) down(2)
    by (simp add: v_def divergence_def mm256_mul_ps_def mm256_add_ps_def mm256_sub_ps_def
        mm256_set1_ps_def algebra_simps add_divide_distrib diff_divide_distrib)
  from storeu_ok[OF al(4), of "x + y * ?N" v] ib
  obtain g1 where g1: "mm256_storeu_ps d (x + y * ?N) v g = Some g1" "same_but {d} g g1"
    "\<forall>l<8. peek g1 d (x + y * ?N + int l) = v l"
    "\<forall>j. j < x + y * ?N \<or> x + y * ?N + 8 \<le> j \<longrightarrow> peek g1 d j = peek g d j"
    by (auto simp: inb_def)
  have f1: "size' g1 = ?N" "alloc g1 p" using g1(2) al by (simp_all add: same_but_fields same_but_alloc)
  from storeu_ok[OF f1(2), of "x + y * ?N" mm256_setzero_ps] ib f1(1)
  obtain g2 where g2: "mm256_storeu_ps p (x + y * ?N) mm256_setzero_ps g1 = Some g2" "same_but {p} g1 g2"
    "\<forall>l<8. peek g2 p (x + y * ?N + int l) = mm256_setzero_ps l"
    "\<forall>j. j < x + y * ?N \<or> x + y * ?N + 8 \<le> j \<longrightarrow> peek g2 p j = peek g1 p j"
    by (auto simp: inb_def)
  have sb: "same_but {p, d} g g2"
    using same_but_trans[OF same_but_mono[OF g1(2)] same_but_mono[OF g2(2)], of "{p, d}"] by simp
  have pd: "peek g2 d j = peek g1 d j" "peek g1 p j = peek g p j" for j
    using same_but_peek[OF g2(2), of d j] same_but_peek[OF g1(2), of p j] ne by simp_all
  show ?thesis using body g1 g2 sb pd lanes f1(1) by (simp add: mm256_setzero_ps_def)
qed

subsection \<open>projectHeightMapLoop\<close>

lemma divergence_same:
  "same_but {p, d} g s \<Longrightarrow> velX \<notin> {p, d} \<Longrightarrow> velY \<notin> {p, d} \<Longrightarrow>
     divergence s velX velY x y = divergence g velX velY x y"
  by (simp add: divergence_def same_but_peek same_but_fields)

lemma projectHeightMapLoop_fun:
  assumes al: "alloc g velX" "alloc g velY" "alloc g p" "alloc g d"
    and ne: "p \<noteq> d" "velX \<notin> {p, d}" "velY \<notin> {p, d}"
    and N: "2 \<le> size' g" and ab: "1 \<le> a" "b \<le> size' g - 1"
    and s: "same_but {p, d} g s"
  shows "\<exists>s'. projectHeightMapLoop a b velX velY p d s = Some s'
     \<and> same_but {p, d} g s'
     \<and> (\<forall>x y. a \<le> y \<and> y < b \<and> 1 \<le> x \<and> x < size' g - 1 \<longrightarrow> heightMap_done g velX velY p d x y s')
     \<and> (\<forall>x y. heightMap_done g velX velY p d x y s \<longrightarrow> heightMap_done g velX velY p d x y s')"
proof -
  let ?N = "size' g"
  have sz: "size' u = ?N" if "same_but {p, d} g u" for u using that by (simp add: same_but_fields)
  have sc: "\<exists>s'. projectHeightMapLoop_cell velX velY p d (1 / of_int ?N) y x u = Some s'
      \<and> same_but {p, d} g s' \<and> heightMap_done g velX velY p d x y s'
      \<and> (\<forall>x' y'. heightMap_done g velX velY p d x' y' u \<longrightarrow> heightMap_done g velX velY p d x' y' s')"
    if a: "a \<le> y" "y < b" "1 \<le> x" "x < ?N - 1" "same_but {p, d} g u" for x y u
  proof -
    have alu: "alloc u velX" "alloc u velY" "alloc u p" "alloc u d"
      using al a(5) by (simp_all add: same_but_alloc)
    from projectHeightMapLoop_cell_eff[OF alu ne(1), of x y] a ab sz[OF a(5)]
    obtain s' where s': "projectHeightMapLoop_cell velX velY p d (1 / of_int ?N) y x u = Some s'"
      "same_but {p, d} u s'"
      "peek s' d (x + y * ?N) = divergence g velX velY x y" "peek s' p (x + y * ?N) = 0"
      "\<forall>j. j \<noteq> x + y * ?N \<longrightarrow> peek s' d j = peek u d j"
      "\<forall>j. j \<noteq> x + y * ?N \<longrightarrow> peek s' p j = peek u p j"
      by (auto simp: divergence_same[OF a(5) ne(2,3)])
    have x: "0 \<le> x" "x < ?N" using a by auto
    note hd = holds_after_cell[where F = "divergence g velX velY" and t = d and N = ?N, OF s'(3) s'(5) x]
    note hp = holds_after_cell[where F = "\<lambda>x y. 0" and t = p and N = ?N and s' = s' and s = u and ?x0.0 = x and ?y0.0 = y,
        OF s'(4) s'(6) x]
    show ?thesis using s'(1) same_but_trans[OF a(5) s'(2)] hd hp by (auto simp: heightMap_done_def)
  qed
  have vc: "\<exists>s'. projectHeightMapLoop_vec velX velY p d (mm256_set1_ps (1 / of_int ?N)) y x u = Some s'
      \<and> same_but {p, d} g s' \<and> (\<forall>l. 0 \<le> l \<and> l < 8 \<longrightarrow> heightMap_done g velX velY p d (x + l) y s')
      \<and> (\<forall>x' y'. heightMap_done g velX velY p d x' y' u \<longrightarrow> heightMap_done g velX velY p d x' y' s')"
    if a: "a \<le> y" "y < b" "1 \<le> x" "x < ?N - 9" "same_but {p, d} g u" for x y u
  proof -
    have alu: "alloc u velX" "alloc u velY" "alloc u p" "alloc u d"
      using al a(5) by (simp_all add: same_but_alloc)
    from projectHeightMapLoop_vec_eff[OF alu ne(1), of x y] a ab sz[OF a(5)]
    obtain s' where s': "projectHeightMapLoop_vec velX velY p d (mm256_set1_ps (1 / of_int ?N)) y x u = Some s'"
      "same_but {p, d} u s'"
      "\<forall>l<8. peek s' d (x + y * ?N + int l) = divergence g velX velY (x + int l) y"
      "\<forall>l<8. peek s' p (x + y * ?N + int l) = 0"
      "\<forall>j. j < x + y * ?N \<or> x + y * ?N + 8 \<le> j \<longrightarrow> peek s' d j = peek u d j"
      "\<forall>j. j < x + y * ?N \<or> x + y * ?N + 8 \<le> j \<longrightarrow> peek s' p j = peek u p j"
      by (auto simp: divergence_same[OF a(5) ne(2,3)])
    have x: "0 \<le> x" "x + 8 \<le> ?N" using a by auto
    note hd = holds_after_lanes[where F = "divergence g velX velY" and t = d and N = ?N, OF s'(3) s'(5) x]
    note hp = holds_after_lanes[where F = "\<lambda>x y. 0" and t = p and N = ?N and s' = s' and s = u and ?x0.0 = x and ?y0.0 = y,
        OF s'(4) s'(6) x]
    show ?thesis using s'(1) same_but_trans[OF a(5) s'(2)] hd hp by (auto simp: heightMap_done_def)
  qed
  from kernel_inv[where P = "same_but {p, d} g" and C = "heightMap_done g velX velY p d" and a = a and b = b
      and vec = "projectHeightMapLoop_vec velX velY p d (mm256_set1_ps (1 / of_int ?N))"
      and scal = "projectHeightMapLoop_cell velX velY p d (1 / of_int ?N)", OF N s sz sc vc]
  show ?thesis using sz[OF s] by (simp add: projectHeightMapLoop_def Let_def)
qed

lemma projectHeightMap_pass_fun:
  assumes al: "alloc g velX" "alloc g velY" "alloc g p" "alloc g d"
    and ne: "p \<noteq> d" "velX \<notin> {p, d}" "velY \<notin> {p, d}"
    and N: "2 \<le> size' g" and pool: "pool_inside g" "pool_covers g"
  shows "\<exists>g'. projectHeightMap_pass velX velY p d g = Some g' \<and> same_but {p, d} g g'
     \<and> (\<forall>x y. 1 \<le> x \<and> x < size' g - 1 \<and> 1 \<le> y \<and> y < size' g - 1
           \<longrightarrow> peek g' d (x + y * size' g) = divergence g velX velY x y
             \<and> peek g' p (x + y * size' g) = 0)"
proof -
  have w: "\<exists>s'. projectHeightMapLoop (fst c) (snd c) velX velY p d s = Some s'
     \<and> same_but {p, d} g s'
     \<and> (\<forall>x y. fst c \<le> y \<and> y < snd c \<and> 1 \<le> x \<and> x < size' g - 1 \<longrightarrow> heightMap_done g velX velY p d x y s')
     \<and> (\<forall>x y. heightMap_done g velX velY p d x y s \<longrightarrow> heightMap_done g velX velY p d x y s')"
    if "c \<in> set (threadPool g (size' g))" "same_but {p, d} g s" for c s
    using that pool(1) by (intro projectHeightMapLoop_fun[OF al ne N]) (auto simp: pool_inside_def)
  from run_chunks_cover[where P = "same_but {p, d} g" and C = "heightMap_done g velX velY p d"
      and work = "\<lambda>a b. projectHeightMapLoop a b velX velY p d"
      and cs = "threadPool g (size' g)" and N = "size' g", OF same_but_refl w]
  obtain g' where g': "run_chunks (threadPool g (size' g))
      (\<lambda>a b. projectHeightMapLoop a b velX velY p d) g = Some g'"
    "same_but {p, d} g g'"
    "\<forall>x y. (\<exists>c\<in>set (threadPool g (size' g)). fst c \<le> y \<and> y < snd c) \<and> 1 \<le> x \<and> x < size' g - 1
        \<longrightarrow> heightMap_done g velX velY p d x y g'"
    by blast
  have "peek g' d (x + y * size' g) = divergence g velX velY x y \<and> peek g' p (x + y * size' g) = 0"
    if "1 \<le> x \<and> x < size' g - 1 \<and> 1 \<le> y \<and> y < size' g - 1" for x y
    using g'(3) pool(2) that by (auto simp: pool_covers_def holds_def heightMap_done_def)
  then show ?thesis using g'(1,2) by (auto simp: projectHeightMap_pass_def computeOnThreads_def)
qed

lemma projectHeightMap_pass_ok:
  assumes al: "alloc g velX" "alloc g velY" "alloc g p" "alloc g d"
    and N: "2 \<le> size' g" and pool: "pool_inside g" and T: "p \<in> T" "d \<in> T"
  shows "ok T g (projectHeightMap_pass velX velY p d g)"
  unfolding projectHeightMap_pass_def computeOnThreads_def
proof (rule run_chunks_ok)
  fix c u
  assume c: "c \<in> set (threadPool g (size' g))" "same_but T g u"
  have f: "size' u = size' g" using c(2) by (simp_all add: same_but_fields)
  have alu: "alloc u velX" "alloc u velY" "alloc u p" "alloc u d"
    using al c(2) by (simp_all add: same_but_alloc)
  have ab: "1 \<le> fst c" "snd c \<le> size' u - 1" using pool c(1) f by (auto simp: pool_inside_def)
  show "ok T u (projectHeightMapLoop (fst c) (snd c) velX velY p d u)"
    unfolding projectHeightMapLoop_def Let_def
  proof (rule kernel_ok)
    show "2 \<le> size' u" using N f by simp
  next
    fix x y w
    assume a: "fst c \<le> y" "y < snd c" "1 \<le> x" "x < size' u - 1" "same_but T u w"
    show "ok T w (projectHeightMapLoop_cell velX velY p d (1 / of_int (size' u)) y x w)"
      using a ab alu T by (intro projectHeightMapLoop_cell_ok) (simp_all add: same_but_alloc same_but_fields)
  next
    fix x y w
    assume a: "fst c \<le> y" "y < snd c" "1 \<le> x" "x < size' u - 9" "same_but T u w"
    show "ok T w (projectHeightMapLoop_vec velX velY p d (mm256_set1_ps (1 / of_int (size' u))) y x w)"
      using a ab alu T by (intro projectHeightMapLoop_vec_ok) (simp_all add: same_but_alloc same_but_fields)
  qed
qed

lemma projectMassConserv_pass_ok:
  assumes al: "alloc g p" "alloc g (velocityX g)" "alloc g (velocityY g)"
    and N: "2 \<le> size' g" and pool: "pool_inside g" and T: "velocityX g \<in> T" "velocityY g \<in> T"
  shows "ok T g (projectMassConserv_pass p d g)"
  unfolding projectMassConserv_pass_def computeOnThreads_def
proof (rule run_chunks_ok)
  fix c u
  assume c: "c \<in> set (threadPool g (size' g))" "same_but T g u"
  have f: "size' u = size' g" "velocityX u = velocityX g" "velocityY u = velocityY g"
    using c(2) by (simp_all add: same_but_fields)
  have alu: "alloc u p" "alloc u (velocityX u)" "alloc u (velocityY u)"
    using al c(2) by (simp_all add: same_but_alloc f)
  have ab: "1 \<le> fst c" "snd c \<le> size' u - 1" using pool c(1) f by (auto simp: pool_inside_def)
  show "ok T u (projectMassConservLoop (fst c) (snd c) p d u)"
    unfolding projectMassConservLoop_def
  proof (rule kernel_ok)
    show "2 \<le> size' u" using N f by simp
  next
    fix x y w
    assume a: "fst c \<le> y" "y < snd c" "1 \<le> x" "x < size' u - 1" "same_but T u w"
    show "ok T w (projectMassConservLoop_cell p d y x w)"
      using a ab alu T f by (intro projectMassConservLoop_cell_ok) (simp_all add: same_but_alloc same_but_fields)
  next
    fix x y w
    assume a: "fst c \<le> y" "y < snd c" "1 \<le> x" "x < size' u - 9" "same_but T u w"
    show "ok T w (projectMassConservLoop_vec p d y x w)"
      using a ab alu T f by (intro projectMassConservLoop_vec_ok) (simp_all add: same_but_alloc same_but_fields)
  qed
qed

subsection \<open>advectLoop\<close>

lemma advected_same:
  "same_but {arr} g s \<Longrightarrow> arr \<notin> {prevArr, velX, velY} \<Longrightarrow>
     advected s prevArr velX velY sc x y = advected g prevArr velX velY sc x y"
  by (simp add: advected_def bilinear_def same_but_peek same_but_fields)

lemma advectLoop_fun:
  assumes al: "alloc g arr" "alloc g prevArr" "alloc g velX" "alloc g velY"
    and ne: "arr \<notin> {prevArr, velX, velY}"
    and N: "2 \<le> size' g" "size' g \<le> 10" and s: "grown arr g s"
  shows "\<exists>s'. advectLoop a b arr prevArr velX velY dt s = Some s'
     \<and> grown arr g s'
     \<and> (\<forall>x y. 1 \<le> y \<and> y < size' g - 1 \<and> 1 \<le> x \<and> x < size' g - 1
           \<longrightarrow> holds (size' g) arr (advected g prevArr velX velY (dt * of_int (size' g))) x y s')"
proof -
  let ?N = "size' g"
  let ?F = "advected g prevArr velX velY (dt * of_int ?N)"
  from s have sb: "same_but {arr} g s" by (simp add: grown_def)
  have sz: "size' s = ?N" using sb by (simp add: same_but_fields)
  have sc: "\<exists>s'. advectLoop_cell arr prevArr velX velY (dt * of_int ?N) (of_int ?N - 1.5) y x u = Some s'
      \<and> same_but {arr} u s' \<and> peek s' arr (x + y * ?N) = ?F x y
      \<and> (\<forall>j. j \<noteq> x + y * ?N \<longrightarrow> peek s' arr j = peek u arr j)"
    if a: "1 \<le> y" "y < ?N - 1" "1 \<le> x" "x < ?N - 1" "same_but {arr} g u" for x y u
  proof -
    have f: "size' u = ?N" using a(5) by (simp add: same_but_fields)
    have alu: "alloc u arr" "alloc u prevArr" "alloc u velX" "alloc u velY"
      using al a(5) by (simp_all add: same_but_alloc)
    from advectLoop_cell_eff[OF alu, of x y "dt * of_int ?N"] a
    show ?thesis by (simp add: f advected_same[OF a(5) ne])
  qed
  have vc: "\<exists>s'. advectLoop_vec arr prevArr velX velY (dt * of_int ?N) (of_int ?N - 1.5) y x u = Some s'
      \<and> same_but {arr} u s'
      \<and> (\<forall>l<8. peek s' arr (x + y * ?N + int l) = ?F (x + int l) y)
      \<and> (\<forall>j. j < x + y * ?N \<or> x + y * ?N + 8 \<le> j \<longrightarrow> peek s' arr j = peek u arr j)"
    if a: "1 \<le> y" "y < ?N - 1" "1 \<le> x" "x < ?N - 9" "same_but {arr} g u" for x y u
    using a(3,4) N(2) by simp
  from kernel_fun[where t = arr and F = ?F and a = 1 and b = "?N - 1"
      and vec = "advectLoop_vec arr prevArr velX velY (dt * of_int ?N) (of_int ?N - 1.5)"
      and scal = "advectLoop_cell arr prevArr velX velY (dt * of_int ?N) (of_int ?N - 1.5)",
      OF N(1) sb refl _ _ sc vc]
  show ?thesis using s by (auto simp: advectLoop_def Let_def sz grown_def)
qed


lemma advect_pass_ok:
  assumes al: "alloc g arr" "alloc g prevArr" "alloc g velX" "alloc g velY"
    and N: "2 \<le> size' g" "size' g \<le> 10" and T: "arr \<in> T"
  shows "ok T g (advect_pass arr prevArr velX velY dt g)"
  unfolding advect_pass_def computeOnThreads_def
proof (rule run_chunks_ok)
  fix c u
  assume c: "c \<in> set (threadPool g (size' g))" "same_but T g u"
  have f: "size' u = size' g" using c(2) by (simp_all add: same_but_fields)
  have alu: "alloc u arr" "alloc u prevArr" "alloc u velX" "alloc u velY"
    using al c(2) by (simp_all add: same_but_alloc)
  show "ok T u (advectLoop (fst c) (snd c) arr prevArr velX velY dt u)"
    unfolding advectLoop_def Let_def
  proof (rule kernel_ok)
    show "2 \<le> size' u" using N f by simp
  next
    fix x y w
    assume a: "1 \<le> y" "y < size' u - 1" "1 \<le> x" "x < size' u - 1" "same_but T u w"
    have alw: "alloc w arr" "alloc w prevArr" "alloc w velX" "alloc w velY" "size' w = size' u"
      using alu a(5) by (simp_all add: same_but_alloc same_but_fields)
    from advectLoop_cell_eff[OF alw(1-4), of x y "dt * of_int (size' u)"] a alw(5)
    show "ok T w (advectLoop_cell arr prevArr velX velY (dt * of_int (size' u)) (of_int (size' u) - 1.5) y x w)"
      using T by (auto simp: ok_def intro: same_but_mono)
  next
    fix x y w
    assume a: "1 \<le> y" "y < size' u - 1" "1 \<le> x" "x < size' u - 9" "same_but T u w"
    then show "ok T w (advectLoop_vec arr prevArr velX velY (dt * of_int (size' u)) (of_int (size' u) - 1.5) y x w)"
      using N(2) f by simp
  qed
qed

subsection \<open>setBounds\<close>

lemma okc_rd_bind:
  "alloc g q \<Longrightarrow> inb g i \<Longrightarrow> (\<And>v. okc W p g (f v)) \<Longrightarrow> okc W p g (rd g q i \<bind> f)"
  by (simp add: rd_peek inb_def)

lemma okc_wr: "alloc g p \<Longrightarrow> inb g i \<Longrightarrow> i \<in> W \<Longrightarrow> okc W p g (wr p i v g)"
  using wr_ok[of g p i v] by (auto simp: okc_def inb_def)

lemma okc_bind:
  assumes "okc W p g r" "\<And>g1. same_but {p} g g1 \<Longrightarrow> okc W p g1 (f g1)"
  shows "okc W p g (r \<bind> f)"
proof -
  from assms(1) obtain g1 where g1: "r = Some g1" "same_but {p} g g1" "\<forall>j. j \<notin> W \<longrightarrow> peek g1 p j = peek g p j"
    by (auto simp: okc_def)
  from assms(2)[OF g1(2)] obtain g2 where g2: "f g1 = Some g2" "same_but {p} g1 g2"
    "\<forall>j. j \<notin> W \<longrightarrow> peek g2 p j = peek g1 p j"
    by (auto simp: okc_def)
  show ?thesis using g1 g2 same_but_trans[OF g1(2) g2(2)] by (auto simp: okc_def)
qed

lemma okc_wr_bind:
  "alloc g p \<Longrightarrow> inb g i \<Longrightarrow> i \<in> W \<Longrightarrow> (\<And>g1. same_but {p} g g1 \<Longrightarrow> okc W p g1 (f g1))
     \<Longrightarrow> okc W p g (wr p i v g \<bind> f)"
  by (rule okc_bind[OF okc_wr])

lemma boundary_not_interior:
  assumes "size' s = N" "0 \<le> x" "x < N" "x = 0 \<or> x = N - 1 \<or> y = 0 \<or> y = N - 1"
  shows "x + y * size' s \<in> - interior_idx N"
proof -
  have False if "1 \<le> x'" "x' < N - 1" "1 \<le> y'" "y' < N - 1" "x + y * N = x' + y' * N" for x' y'
    using idx_inj[of x N x' y y'] that assms by auto
  then show ?thesis using assms(1) by (auto simp: interior_idx_def)
qed

lemma setBounds_edge_okc:
  assumes "alloc g arr" "1 \<le> i" "i < size' g - 1"
  shows "okc (- interior_idx (size' g)) arr g (setBounds_edge dir arr i g)"
  unfolding setBounds_edge_def Let_def using assms
  by (intro okc_rd_bind okc_wr_bind okc_wr inb_cell boundary_not_interior)
     (auto simp: same_but_alloc same_but_fields)

lemma setBounds_corners_okc:
  assumes "alloc g arr" "2 \<le> size' g"
  shows "okc (- interior_idx (size' g)) arr g (setBounds_corners arr g)"
  unfolding setBounds_corners_def Let_def using assms
  by (intro okc_rd_bind okc_wr_bind okc_wr inb_cell boundary_not_interior)
     (auto simp: same_but_alloc same_but_fields)

lemma setBounds_fun:
  assumes al: "alloc g arr" and N: "2 \<le> size' g"
  shows "\<exists>g'. setBounds dir arr g = Some g' \<and> same_but {arr} g g'
     \<and> (\<forall>x y. 1 \<le> x \<and> x < size' g - 1 \<and> 1 \<le> y \<and> y < size' g - 1
           \<longrightarrow> peek g' arr (x + y * size' g) = peek g arr (x + y * size' g))"
proof -
  let ?W = "- interior_idx (size' g)"
  define I where "I i s \<longleftrightarrow> same_but {arr} g s \<and> (\<forall>j. j \<notin> ?W \<longrightarrow> peek s arr j = peek g arr j)"
    for i :: int and s
  have I0: "I 1 g" by (simp add: I_def same_but_refl)
  have st: "\<exists>t'. setBounds_edge dir arr j t = Some t' \<and> I (j + 1) t'"
    if "1 \<le> j" "j < size' g - 1" "I j t" for j t
  proof -
    from that(3) have sbt: "same_but {arr} g t" by (simp add: I_def)
    have f: "size' t = size' g" "alloc t arr" using sbt al by (simp_all add: same_but_fields same_but_alloc)
    from setBounds_edge_okc[OF f(2), of j dir] that f(1)
    obtain t' where t': "setBounds_edge dir arr j t = Some t'" "same_but {arr} t t'"
      "\<forall>j. j \<notin> ?W \<longrightarrow> peek t' arr j = peek t arr j" by (auto simp: okc_def)
    have "I (j + 1) t'" using t'(2,3) that(3) by (auto simp: I_def intro: same_but_trans)
    then show ?thesis using t'(1) by blast
  qed
  from for_loop_inv[where I = I and body = "setBounds_edge dir arr", OF I0 st]
  obtain g1 where g1: "for_loop 1 (size' g - 1) (setBounds_edge dir arr) g = Some g1"
    "I (max 1 (size' g - 1)) g1" by blast
  from g1(2) have sb1: "same_but {arr} g g1" by (simp add: I_def)
  have f: "size' g1 = size' g" "alloc g1 arr" using sb1 al by (simp_all add: same_but_fields same_but_alloc)
  from setBounds_corners_okc[OF f(2)] N f(1)
  obtain g2 where g2: "setBounds_corners arr g1 = Some g2" "same_but {arr} g1 g2"
    "\<forall>j. j \<notin> ?W \<longrightarrow> peek g2 arr j = peek g1 arr j" by (auto simp: okc_def)
  have sb: "same_but {arr} g g2" using g1(2) g2(2) by (auto simp: I_def intro: same_but_trans)
  have "peek g2 arr (x + y * size' g) = peek g arr (x + y * size' g)"
    if "1 \<le> x \<and> x < size' g - 1 \<and> 1 \<le> y \<and> y < size' g - 1" for x y
  proof -
    have "x + y * size' g \<notin> ?W" using that by (auto simp: interior_idx_def)
    then show ?thesis using g2(3) g1(2) by (simp add: I_def)
  qed
  then show ?thesis using g1(1) g2(1) sb by (auto simp: setBounds_def)
qed

lemma setBounds_ok:
  "alloc g arr \<Longrightarrow> 2 \<le> size' g \<Longrightarrow> arr \<in> T \<Longrightarrow> ok T g (setBounds dir arr g)"
  using setBounds_fun[of g arr dir] by (auto simp: ok_def intro: same_but_mono)

subsection \<open>Rounding\<close>

lemma rne_cases: "round_nearest_even r = \<lfloor>r\<rfloor> \<or> round_nearest_even r = \<lfloor>r\<rfloor> + 1"
  by (simp add: round_nearest_even_def Let_def)

lemma rne_int: "round_nearest_even (of_int k) = k"
  by (simp add: round_nearest_even_def)

lemma rne_mono:
  assumes "x \<le> y"
  shows "round_nearest_even x \<le> round_nearest_even y"
proof (cases "\<lfloor>x\<rfloor> = \<lfloor>y\<rfloor>")
  case True
  then have "x - of_int \<lfloor>x\<rfloor> \<le> y - of_int \<lfloor>y\<rfloor>" using assms by simp
  then show ?thesis using True by (auto simp: round_nearest_even_def Let_def)
next
  case False
  then have "\<lfloor>x\<rfloor> < \<lfloor>y\<rfloor>" using floor_mono[OF assms] by simp
  then have "\<lfloor>x\<rfloor> + 1 \<le> \<lfloor>y\<rfloor>" by simp
  moreover have "round_nearest_even x \<le> \<lfloor>x\<rfloor> + 1" using rne_cases[of x] by auto
  moreover have "\<lfloor>y\<rfloor> \<le> round_nearest_even y" using rne_cases[of y] by auto
  ultimately show ?thesis by linarith
qed

lemma rne_0: "round_nearest_even 0 = 0"
  using rne_int[of 0] by simp

lemma round_to_0: "round_to p emin 0 = 0"
  by (simp add: round_to_def Let_def rne_0)

lemma round_to_nonneg: "0 \<le> x \<Longrightarrow> 0 \<le> round_to p emin x"
proof -
  assume "0 \<le> x"
  then have "0 \<le> x / (2::real) powr of_int (ulp_exponent p emin x)" by simp
  from rne_mono[OF this] show ?thesis by (simp add: round_to_def Let_def rne_0)
qed

lemma round_to_nonpos: "x \<le> 0 \<Longrightarrow> round_to p emin x \<le> 0"
proof -
  assume "x \<le> 0"
  then have "x / (2::real) powr of_int (ulp_exponent p emin x) \<le> 0" by (simp add: divide_nonpos_pos)
  from rne_mono[OF this] show ?thesis
    by (simp add: round_to_def Let_def rne_0 mult_nonpos_nonneg)
qed

lemma two_powr_int: "0 \<le> n \<Longrightarrow> (2::real) powr of_int n = of_int (2 ^ nat n)"
proof -
  assume "0 \<le> n"
  then have "(of_int n :: real) = real (nat n)" by simp
  then have "(2::real) powr of_int n = 2 ^ nat n" by (simp only: powr_realpow)
  then show ?thesis by simp
qed

lemma floor_log_bounds:
  assumes "0 < y"
  shows "(2::real) powr of_int \<lfloor>log 2 y\<rfloor> \<le> y" "y < (2::real) powr of_int (\<lfloor>log 2 y\<rfloor> + 1)"
proof -
  have "of_int \<lfloor>log 2 y\<rfloor> \<le> log 2 y" by simp
  then have "(2::real) powr of_int \<lfloor>log 2 y\<rfloor> \<le> (2::real) powr log 2 y" by (simp only: powr_le_cancel_iff) 
  then show "(2::real) powr of_int \<lfloor>log 2 y\<rfloor> \<le> y" using assms by simp
  have "log 2 y < of_int (\<lfloor>log 2 y\<rfloor> + 1)" by linarith
  then have "(2::real) powr log 2 y < (2::real) powr of_int (\<lfloor>log 2 y\<rfloor> + 1)" by (simp only: powr_less_cancel_iff)
  then show "y < (2::real) powr of_int (\<lfloor>log 2 y\<rfloor> + 1)" using assms by simp
qed

lemma two_powr_diff: "(2::real) powr of_int a / (2::real) powr of_int b = (2::real) powr of_int (a - b)"
  by (simp add: powr_diff)

lemma two_powr_add: "(2::real) powr of_int a * (2::real) powr of_int b = (2::real) powr of_int (a + b)"
  by (simp add: powr_add)

lemma scale_mono: "a \<le> b \<Longrightarrow> real_of_int a * (2::real) powr e \<le> real_of_int b * (2::real) powr e"
  by (intro mult_right_mono) simp_all

lemma ulp_exponent_mono:
  assumes "0 < x" "x \<le> y"
  shows "ulp_exponent p emin x \<le> ulp_exponent p emin y"
proof -
  have "log 2 x \<le> log 2 y" using assms by simp
  then have "\<lfloor>log 2 x\<rfloor> \<le> \<lfloor>log 2 y\<rfloor>" by (rule floor_mono)
  then show ?thesis using assms by (simp add: ulp_exponent_def)
qed

lemma round_to_mono_pos:
  assumes p: "0 < p" and x: "0 < x" and xy: "x \<le> y"
  shows "round_to p emin x \<le> round_to p emin y"
proof -
  let ?ex = "ulp_exponent p emin x" and ?ey = "ulp_exponent p emin y"
  have y: "0 < y" using x xy by simp
  have le: "?ex \<le> ?ey" by (rule ulp_exponent_mono[OF x xy])
  show ?thesis
  proof (cases "?ex = ?ey")
    case True
    have "x / (2::real) powr of_int ?ey \<le> y / (2::real) powr of_int ?ey" using xy by (simp add: divide_right_mono)
    from scale_mono[OF rne_mono[OF this]]
    show ?thesis by (simp add: round_to_def Let_def True)
  next
    case False
    then have lt: "?ex < ?ey" using le by simp
    define k where "k = \<lfloor>log 2 y\<rfloor>"
    have ey: "?ey = k - (int p - 1)"
    proof -
      have "emin \<le> ?ex" by (simp add: ulp_exponent_def)
      then have "emin < ?ey" using lt by simp
      then show ?thesis using x y by (simp add: ulp_exponent_def k_def max_def split: if_splits)
    qed
    have "\<lfloor>log 2 x\<rfloor> - (int p - 1) \<le> ?ex" using x by (simp add: ulp_exponent_def)
    then have kx: "\<lfloor>log 2 x\<rfloor> + 1 \<le> k" using lt ey by simp
    have a: "(2::real) powr of_int k \<le> y" using floor_log_bounds(1)[OF y] by (simp add: k_def)
    have "x < (2::real) powr of_int (\<lfloor>log 2 x\<rfloor> + 1)" by (rule floor_log_bounds(2)[OF x])
    also have "\<dots> \<le> (2::real) powr of_int k" using kx by (simp only: powr_le_cancel_iff)
    finally have b: "x \<le> (2::real) powr of_int k" by simp
    have c: "(2::real) powr of_int k \<le> round_to p emin y"
    proof -
      have "(2::real) powr of_int k / (2::real) powr of_int ?ey \<le> y / (2::real) powr of_int ?ey"
        using a by (simp add: divide_right_mono)
      moreover have "(2::real) powr of_int k / (2::real) powr of_int ?ey = real_of_int (2 ^ nat (int p - 1))"
      proof -
        have "k - ?ey = int p - 1" using ey by simp
        then have "(2::real) powr of_int k / (2::real) powr of_int ?ey = (2::real) powr of_int (int p - 1)"
          by (simp only: two_powr_diff)
        also have "\<dots> = real_of_int (2 ^ nat (int p - 1))" using p by (intro two_powr_int) simp
        finally show ?thesis .
      qed
      ultimately have "real_of_int (2 ^ nat (int p - 1)) \<le> y / (2::real) powr of_int ?ey" by simp
      from rne_mono[OF this] have "2 ^ nat (int p - 1) \<le> round_nearest_even (y / (2::real) powr of_int ?ey)"
        by (simp only: rne_int)
      then have s1: "real_of_int (2 ^ nat (int p - 1)) * (2::real) powr of_int ?ey
          \<le> real_of_int (round_nearest_even (y / (2::real) powr of_int ?ey)) * (2::real) powr of_int ?ey"
        by (rule scale_mono)
      have s2: "real_of_int (2 ^ nat (int p - 1)) * (2::real) powr of_int ?ey = (2::real) powr of_int k"
      proof -
        have "real_of_int (2 ^ nat (int p - 1)) = (2::real) powr of_int (int p - 1)"
          using p by (intro two_powr_int[symmetric]) simp
        moreover have "int p - 1 + ?ey = k" using ey by simp
        ultimately show ?thesis by (simp only: two_powr_add)
      qed
      show ?thesis using s1 unfolding s2 round_to_def Let_def .
    qed
    have d: "round_to p emin x \<le> (2::real) powr of_int k"
    proof -
      have nn: "0 \<le> k - ?ex" using lt ey p by simp
      have "x / (2::real) powr of_int ?ex \<le> (2::real) powr of_int k / (2::real) powr of_int ?ex"
        using b by (simp add: divide_right_mono)
      moreover have "(2::real) powr of_int k / (2::real) powr of_int ?ex = real_of_int (2 ^ nat (k - ?ex))"
        using nn by (simp only: two_powr_diff two_powr_int)
      ultimately have "x / (2::real) powr of_int ?ex \<le> real_of_int (2 ^ nat (k - ?ex))" by simp
      from rne_mono[OF this] have "round_nearest_even (x / (2::real) powr of_int ?ex) \<le> 2 ^ nat (k - ?ex)"
        by (simp only: rne_int)
      then have s1: "real_of_int (round_nearest_even (x / (2::real) powr of_int ?ex)) * (2::real) powr of_int ?ex
          \<le> real_of_int (2 ^ nat (k - ?ex)) * (2::real) powr of_int ?ex"
        by (rule scale_mono)
      have s2: "real_of_int (2 ^ nat (k - ?ex)) * (2::real) powr of_int ?ex = (2::real) powr of_int k"
      proof -
        have "real_of_int (2 ^ nat (k - ?ex)) = (2::real) powr of_int (k - ?ex)"
          using nn by (intro two_powr_int[symmetric])
        moreover have "k - ?ex + ?ex = k" by simp
        ultimately show ?thesis by (simp only: two_powr_add)
      qed
      show ?thesis using s1 unfolding s2 round_to_def Let_def .
    qed
    from c d show ?thesis by simp
  qed
qed

lemma round_to_mono:
  assumes "0 < p" "x \<le> y" "0 \<le> y"
  shows "round_to p emin x \<le> round_to p emin y"
proof (cases "0 < x")
  case True
  then show ?thesis using assms by (intro round_to_mono_pos)
next
  case False
  then have "round_to p emin x \<le> 0" by (intro round_to_nonpos) simp
  moreover have "0 \<le> round_to p emin y" using assms(3) by (rule round_to_nonneg)
  ultimately show ?thesis by simp
qed

lemma ulp_exponent_representable:
  assumes m: "m \<noteq> 0" "\<bar>m\<bar> < 2 ^ p" and e: "emin \<le> e"
  shows "ulp_exponent p emin (of_int m * (2::real) powr of_int e) \<le> e"
proof -
  have pos: "0 < real_of_int \<bar>m\<bar>" using m(1) by simp
  have "\<bar>real_of_int m * (2::real) powr of_int e\<bar> = real_of_int \<bar>m\<bar> * (2::real) powr of_int e"
    by (simp add: abs_mult)
  then have "log 2 \<bar>real_of_int m * (2::real) powr of_int e\<bar>
      = log 2 (real_of_int \<bar>m\<bar>) + of_int e"
    using pos by (simp add: log_mult)
  then have fl: "\<lfloor>log 2 \<bar>real_of_int m * (2::real) powr of_int e\<bar>\<rfloor>
      = \<lfloor>log 2 (real_of_int \<bar>m\<bar>)\<rfloor> + e" by simp
  have "real_of_int \<bar>m\<bar> < 2 ^ p" using m(2) by (metis of_int_less_iff of_int_numeral of_int_power)
  then have "real_of_int \<bar>m\<bar> < 2 powr real p" by (simp add: powr_realpow)
  then have "log 2 (real_of_int \<bar>m\<bar>) < real p" using pos by (simp add: log_less_iff)
  then have "\<lfloor>log 2 (real_of_int \<bar>m\<bar>)\<rfloor> < int p" by (simp add: floor_less_iff)
  then show ?thesis using e fl by (simp add: ulp_exponent_def)
qed

lemma round_to_representable:
  assumes m: "\<bar>m\<bar> < 2 ^ p" and e: "emin \<le> e"
  shows "round_to p emin (of_int m * 2 powr of_int e) = of_int m * 2 powr of_int e"
proof (cases "m = 0")
  case True
  then show ?thesis by (simp add: round_to_0)
next
  case False
  let ?x = "real_of_int m * (2::real) powr of_int e"
  define e' where "e' = ulp_exponent p emin ?x"
  have le: "e' \<le> e" unfolding e'_def by (rule ulp_exponent_representable[OF False m e])
  have sp: "(2::real) powr of_int e = real_of_int (2 ^ nat (e - e')) * (2::real) powr of_int e'"
  proof -
    have "real_of_int (2 ^ nat (e - e')) = (2::real) powr of_int (e - e')"
      using le by (intro two_powr_int[symmetric]) simp
    moreover have "e - e' + e' = e" by simp
    ultimately show ?thesis by (simp only: two_powr_add)
  qed
  have "?x / (2::real) powr of_int e' = real_of_int (m * 2 ^ nat (e - e'))"
    by (subst sp) simp
  then have "round_nearest_even (?x / (2::real) powr of_int e') = m * 2 ^ nat (e - e')"
    by (simp only: rne_int)
  then have "round_to p emin ?x = real_of_int (m * 2 ^ nat (e - e')) * (2::real) powr of_int e'"
    by (simp add: round_to_def Let_def e'_def)
  also have "\<dots> = real_of_int m * (real_of_int (2 ^ nat (e - e')) * (2::real) powr of_int e')"
    by simp
  also have "\<dots> = ?x" by (simp only: sp[symmetric])
  finally show ?thesis .
qed

lemma to_float_facts:
  "to_float 0 = 0" "0 \<le> x \<Longrightarrow> 0 \<le> to_float x" "x \<le> 0 \<Longrightarrow> to_float x \<le> 0"
  "x \<le> y \<Longrightarrow> 0 \<le> y \<Longrightarrow> to_float x \<le> to_float y"
  by (simp_all add: to_float_def round_to_0 round_to_nonneg round_to_nonpos round_to_mono)

lemma to_double_facts:
  "to_double 0 = 0" "0 \<le> x \<Longrightarrow> 0 \<le> to_double x" "x \<le> 0 \<Longrightarrow> to_double x \<le> 0"
  "x \<le> y \<Longrightarrow> 0 \<le> y \<Longrightarrow> to_double x \<le> to_double y"
  by (simp_all add: to_double_def round_to_0 round_to_nonneg round_to_nonpos round_to_mono)

lemma to_float_exact:
  "\<bar>m\<bar> < 2 ^ 24 \<Longrightarrow> - 149 \<le> e \<Longrightarrow> to_float (of_int m * 2 powr of_int e) = of_int m * 2 powr of_int e"
  unfolding to_float_def by (rule round_to_representable)

lemma to_double_exact:
  "\<bar>m\<bar> < 2 ^ 53 \<Longrightarrow> - 1074 \<le> e \<Longrightarrow> to_double (of_int m * 2 powr of_int e) = of_int m * 2 powr of_int e"
  unfolding to_double_def by (rule round_to_representable)

lemma to_float_int: "\<bar>m\<bar> < 2 ^ 24 \<Longrightarrow> to_float (of_int m) = of_int m"
  using to_float_exact[of m 0] by simp

lemma to_double_int: "\<bar>m\<bar> < 2 ^ 53 \<Longrightarrow> to_double (of_int m) = of_int m"
  using to_double_exact[of m 0] by simp

lemma ulp_exponent_eval:
  assumes lo: "(2::real) powr of_int k \<le> \<bar>x\<bar>" and hi: "\<bar>x\<bar> < (2::real) powr of_int (k + 1)"
  shows "ulp_exponent p emin x = max (k - (int p - 1)) emin"
proof -
  have "(0::real) < 2 powr of_int k" by simp
  then have pos: "0 < \<bar>x\<bar>" using lo by linarith
  have "of_int k \<le> log 2 \<bar>x\<bar>" using lo pos by (simp add: le_log_iff)
  moreover have "log 2 \<bar>x\<bar> < of_int k + 1" using hi pos by (simp add: log_less_iff add.commute)
  ultimately have "\<lfloor>log 2 \<bar>x\<bar>\<rfloor> = k" by (simp add: floor_eq_iff)
  then show ?thesis by (simp add: ulp_exponent_def)
qed

lemma to_float_eval:
  assumes "(2::real) powr of_int k \<le> \<bar>x\<bar>" "\<bar>x\<bar> < (2::real) powr of_int (k + 1)"
    and "e = max (k - 23) (- 149)"
  shows "to_float x = of_int (round_nearest_even (x / 2 powr of_int e)) * 2 powr of_int e"
  using ulp_exponent_eval[OF assms(1,2), of 24 "- 149"] assms(3)
  by (simp add: to_float_def round_to_def Let_def)

lemma to_float_value:
  "x = of_int m * 2 powr of_int e \<Longrightarrow> \<bar>m\<bar> < 2 ^ 24 \<Longrightarrow> - 149 \<le> e \<Longrightarrow> to_float x = x"
  using to_float_exact[of m e] by simp

lemma to_double_value:
  "x = of_int m * 2 powr of_int e \<Longrightarrow> \<bar>m\<bar> < 2 ^ 53 \<Longrightarrow> - 1074 \<le> e \<Longrightarrow> to_double x = x"
  using to_double_exact[of m e] by simp

lemma two_powr_numeral:
  "(2::real) powr - numeral n = 1 / 2 ^ numeral n" "(2::real) powr numeral n = 2 ^ numeral n"
  "(2::real) powr - 1 = 1 / 2"
  by (simp_all add: powr_neg_numeral)

subsection \<open>fadeDensity\<close>

lemma fadeDensity_fun:
  assumes al: "alloc g (density g)" and N: "2 \<le> size' g"
  shows "\<exists>g'. fadeDensity dt fadeRate g = Some g' \<and> same_but {density g} g g'
     \<and> (\<forall>j. peek g' (density g) j =
            (if j \<in> interior_idx (size' g)
             then to_float (peek g (density g) j
                    * to_float (to_double (1 - to_double (to_double (dt * fadeRate) * of_int (size' g)))))
             else peek g (density g) j))"
proof -
  let ?N = "size' g" and ?D = "density g"
  let ?r = "to_double (1 - to_double (to_double (dt * fadeRate) * of_int ?N))"
  define cells where "cells y x = {(x', y'). 1 \<le> x' \<and> x' < ?N - 1 \<and> 1 \<le> y' \<and> y' < ?N - 1
      \<and> (y' < y \<or> (y' = y \<and> x' < x))}" for y x :: int
  define dn where "dn y x = (\<lambda>(x', y'). x' + y' * ?N) ` cells y x" for y x :: int
  define Inv where "Inv y x s \<longleftrightarrow> same_but {?D} g s
      \<and> (\<forall>j. peek s ?D j = (if j \<in> dn y x then to_float (peek g ?D j * to_float ?r) else peek g ?D j))" for y x s
  have "cells y (x + 1) = insert (x, y) (cells y x)"
    if "1 \<le> x" "x < ?N - 1" "1 \<le> y" "y < ?N - 1" for x y
    using that by (auto simp: cells_def)
  then have dn_next: "dn y (x + 1) = insert (x + y * ?N) (dn y x)"
    if "1 \<le> x" "x < ?N - 1" "1 \<le> y" "y < ?N - 1" for x y
    using that by (simp add: dn_def)
  have dn_fresh: "x + y * ?N \<notin> dn y x" if "1 \<le> x" "x < ?N - 1" for x y
  proof
    assume "x + y * ?N \<in> dn y x"
    then obtain x' y' where h: "1 \<le> x'" "x' < ?N - 1" "y' < y \<or> (y' = y \<and> x' < x)"
      "x + y * ?N = x' + y' * ?N" by (auto simp: dn_def cells_def)
    from idx_inj[of x ?N x' y y'] that h have "x = x' \<and> y = y'" by auto
    then show False using h(3) by auto
  qed
  have "cells y (?N - 1) = cells (y + 1) 1" if "1 \<le> y" "y < ?N - 1" for y
    using that by (auto simp: cells_def)
  then have dn_row: "dn y (?N - 1) = dn (y + 1) 1" if "1 \<le> y" "y < ?N - 1" for y
    using that by (simp add: dn_def)
  have "cells 1 1 = {}" by (auto simp: cells_def)
  then have dn_0: "dn 1 1 = {}" by (simp add: dn_def)
  have "cells (?N - 1) 1 = {(x', y'). 1 \<le> x' \<and> x' < ?N - 1 \<and> 1 \<le> y' \<and> y' < ?N - 1}"
    by (auto simp: cells_def)
  then have dn_all: "dn (?N - 1) 1 = interior_idx ?N"
    by (auto simp: dn_def interior_idx_def)
  have cell: "\<exists>t'. fadeDensity_cell ?r y x t = Some t' \<and> Inv y (x + 1) t'"
    if xy: "1 \<le> x" "x < ?N - 1" "1 \<le> y" "y < ?N - 1" and i: "Inv y x t" for x y t
  proof -
    from i have sb: "same_but {?D} g t" by (simp add: Inv_def)
    have f: "size' t = ?N" "density t = ?D" "alloc t (density t)"
      using sb al by (simp_all add: same_but_fields same_but_alloc)
    from fadeDensity_cell_eff[OF f(3), of x y ?r] xy f(1,2)
    obtain t' where t': "fadeDensity_cell ?r y x t = Some t'" "same_but {?D} t t'"
      "peek t' ?D (x + y * ?N) = to_float (peek t ?D (x + y * ?N) * to_float ?r)"
      "\<forall>j. j \<noteq> x + y * ?N \<longrightarrow> peek t' ?D j = peek t ?D j"
      by auto
    have old: "peek t ?D j = (if j \<in> dn y x then to_float (peek g ?D j * to_float ?r) else peek g ?D j)" for j
      using i by (simp add: Inv_def)
    have "peek t' ?D j = (if j \<in> insert (x + y * ?N) (dn y x) then to_float (peek g ?D j * to_float ?r) else peek g ?D j)" for j
    proof (cases "j = x + y * ?N")
      case True
      have "peek t ?D (x + y * ?N) = peek g ?D (x + y * ?N)"
        using old[of "x + y * ?N"] dn_fresh[OF xy(1,2), of y] by simp
      then show ?thesis using True t'(3) by simp
    next
      case False
      then have "peek t' ?D j = peek t ?D j" using t'(4) by blast
      then show ?thesis using False old[of j] by simp
    qed
    then have "Inv y (x + 1) t'"
      unfolding Inv_def dn_next[OF xy] using same_but_trans[OF sb t'(2)] by blast
    then show ?thesis using t'(1) by blast
  qed
  have row: "\<exists>t'. for_loop 1 (size' t - 1) (fadeDensity_cell ?r y) t = Some t' \<and> Inv (y + 1) 1 t'"
    if y: "1 \<le> y" "y < ?N - 1" and i: "Inv y 1 t" for y t
  proof -
    from i have "same_but {?D} g t" by (simp add: Inv_def)
    then have f: "size' t = ?N" by (simp add: same_but_fields)
    from for_loop_inv[where I = "Inv y" and body = "fadeDensity_cell ?r y" and i = 1 and n = "?N - 1", OF i]
      cell y
    obtain t' where "for_loop 1 (?N - 1) (fadeDensity_cell ?r y) t = Some t'" "Inv y (max 1 (?N - 1)) t'"
      by blast
    then show ?thesis using N dn_row[OF y] f by (auto simp: Inv_def max_def)
  qed
  have I0: "Inv 1 1 g" by (simp add: Inv_def dn_0 same_but_refl)
  from for_loop_inv[where I = "\<lambda>y. Inv y 1" and i = 1 and n = "?N - 1"
      and body = "\<lambda>y g. for_loop 1 (size' g - 1) (fadeDensity_cell ?r y) g", OF I0] row
  obtain g' where "for_loop 1 (?N - 1) (\<lambda>y g. for_loop 1 (size' g - 1) (fadeDensity_cell ?r y) g) g = Some g'"
    "Inv (max 1 (?N - 1)) 1 g'" by blast
  then show ?thesis using N dn_all by (auto simp: Inv_def max_def fadeDensity_def Let_def)
qed

lemma fadeDensity_ok:
  "alloc g (density g) \<Longrightarrow> 2 \<le> size' g \<Longrightarrow> density g \<in> T \<Longrightarrow> ok T g (fadeDensity dt fadeRate g)"
  using fadeDensity_fun[of g dt fadeRate] by (auto simp: ok_def intro: same_but_mono)

subsection \<open>The relaxation loop\<close>

lemma for_loop_snoc:
  "i \<le> n \<Longrightarrow> for_loop i (n + 1) body s = for_loop i n body s \<bind> body n"
proof (induction i n body s rule: for_loop.induct)
  case (1 i n body s)
  show ?case
  proof (cases "i < n")
    case True
    show ?thesis
    proof (cases "body i s")
      case None
      then show ?thesis using True
        by (simp add: for_loop.simps[of i "n + 1"] for_loop.simps[of i n])
    next
      case (Some s')
      have "for_loop (i + 1) (n + 1) body s' = for_loop (i + 1) n body s' \<bind> body n"
        using "1.IH"[OF True Some] True by simp
      then show ?thesis using True Some
        by (simp add: for_loop.simps[of i "n + 1"] for_loop.simps[of i n])
    qed
  next
    case False
    then have "i = n" using "1.prems" by simp
    then show ?thesis
      by (simp add: for_loop.simps[of n "n + 1"] for_loop.simps[of n n] for_loop.simps[of "n + 1" "n + 1"]
          split: option.splits)
  qed
qed

lemma alloc_tmp_upd [simp]: "alloc (g\<lparr>tmp := a\<rparr>) p = alloc g p"
  by (auto simp: alloc_def split: option.splits)

lemma peek_tmp_upd [simp]: "peek (g\<lparr>tmp := a\<rparr>) p i = peek g p i"
  by (simp add: peek_def rd_def)

lemma pool_tmp_upd [simp]:
  "pool_inside (g\<lparr>tmp := a\<rparr>) = pool_inside g" "pool_covers (g\<lparr>tmp := a\<rparr>) = pool_covers g"
  by (simp_all add: pool_inside_def pool_covers_def)

lemma same_but_tmp_upd:
  assumes "same_but T g g'"
  shows "same_but T (g\<lparr>tmp := a\<rparr>) (g'\<lparr>tmp := a\<rparr>)"
proof -
  from assms obtain m where m: "g' = g\<lparr>mem := m\<rparr>" by (auto simp: same_but_def)
  show ?thesis
    unfolding same_but_def
  proof (intro conjI)
    show "\<exists>m. g'\<lparr>tmp := a\<rparr> = g\<lparr>tmp := a\<rparr>\<lparr>mem := m\<rparr>" using m by (intro exI[of _ m]) simp
    show "\<forall>p. map_option length (mem (g'\<lparr>tmp := a\<rparr>) p) = map_option length (mem (g\<lparr>tmp := a\<rparr>) p)"
      using assms by (simp add: same_but_def)
    show "\<forall>p. p \<notin> T \<longrightarrow> mem (g'\<lparr>tmp := a\<rparr>) p = mem (g\<lparr>tmp := a\<rparr>) p"
      using assms by (simp add: same_but_def)
  qed
qed

lemma relaxed_tmp_upd [simp]: "relaxed (g\<lparr>tmp := a\<rparr>) arr prevArr k rs x y = relaxed g arr prevArr k rs x y"
  by (simp add: relaxed_def)

lemma linearSolve_iteration_fun:
  assumes al: "alloc g arr" "alloc g prevArr" "alloc g (tmp g)"
    and N: "2 \<le> size' g" and pool: "pool_inside g"
  shows "\<exists>g'. linearSolve_iteration dir prevArr k rs (arr, g) = Some (tmp g, g')
     \<and> same_but {tmp g} (g\<lparr>tmp := arr\<rparr>) g'
     \<and> (tmp g \<noteq> arr \<and> tmp g \<noteq> prevArr \<and> pool_covers g \<longrightarrow>
         (\<forall>x y. 1 \<le> x \<and> x < size' g - 1 \<and> 1 \<le> y \<and> y < size' g - 1
           \<longrightarrow> peek g' (tmp g) (x + y * size' g) = relaxed g arr prevArr k rs x y))"
proof -
  let ?t = "tmp g"
  from linearSolve_pass_ok[OF al N pool, of "{?t}" k rs]
  obtain g1 where g1: "linearSolve_pass arr prevArr k rs g = Some g1" "same_but {?t} g g1"
    by (auto simp: ok_def)
  have f1: "tmp g1 = ?t" "size' g1 = size' g" "alloc g1 ?t"
    using g1(2) al by (simp_all add: same_but_fields same_but_alloc)
  from setBounds_fun[of "g1\<lparr>tmp := arr\<rparr>" ?t dir] f1 N
  obtain g2 where g2: "setBounds dir ?t (g1\<lparr>tmp := arr\<rparr>) = Some g2"
    "same_but {?t} (g1\<lparr>tmp := arr\<rparr>) g2"
    "\<forall>x y. 1 \<le> x \<and> x < size' g - 1 \<and> 1 \<le> y \<and> y < size' g - 1
           \<longrightarrow> peek g2 ?t (x + y * size' g) = peek g1 ?t (x + y * size' g)"
    by auto
  have sb: "same_but {?t} (g\<lparr>tmp := arr\<rparr>) g2"
    using same_but_trans[OF same_but_tmp_upd[OF g1(2)] g2(2)] .
  have run: "linearSolve_iteration dir prevArr k rs (arr, g) = Some (?t, g2)"
    using g1(1) g2(1) f1 by (simp add: linearSolve_iteration_def)
  have val: "peek g2 ?t (x + y * size' g) = relaxed g arr prevArr k rs x y"
    if ne: "?t \<noteq> arr" "?t \<noteq> prevArr" and cov: "pool_covers g"
      and xy: "1 \<le> x \<and> x < size' g - 1 \<and> 1 \<le> y \<and> y < size' g - 1" for x y
  proof -
    from linearSolve_pass_fun[OF al ne N pool cov, of k rs] g1(1)
    have "peek g1 ?t (x + y * size' g) = relaxed g arr prevArr k rs x y" using xy by auto
    then show ?thesis using g2(3) xy by simp
  qed
  show ?thesis using run sb val by blast
qed

lemma linearSolve_locals_Suc:
  "linearSolve_locals dir (int n + 1) arr prevArr k sc g
     = linearSolve_locals dir (int n) arr prevArr k sc g \<bind> linearSolve_iteration dir prevArr k (1 / sc)"
  by (simp add: linearSolve_locals_def Let_def for_loop_snoc)

lemma linearSolve_locals_0: "linearSolve_locals dir 0 arr prevArr k sc g = Some (arr, g)"
  by (simp add: linearSolve_locals_def for_loop.simps)

lemma linearSolve_locals_inv:
  assumes al: "alloc g arr" "alloc g prevArr" "alloc g (tmp g)"
    and N: "2 \<le> size' g" and pool: "pool_inside g"
  shows "\<exists>a' g'. linearSolve_locals dir (int n) arr prevArr k sc g = Some (a', g')
     \<and> (a', tmp g') = (if even n then (arr, tmp g) else (tmp g, arr))
     \<and> same_but {arr, tmp g} (g\<lparr>tmp := tmp g'\<rparr>) g'"
proof (induction n)
  case 0
  show ?case using linearSolve_locals_0[of dir arr prevArr k sc g] by (simp add: same_but_refl)
next
  case (Suc n)
  then obtain a' g' where h: "linearSolve_locals dir (int n) arr prevArr k sc g = Some (a', g')"
    "(a', tmp g') = (if even n then (arr, tmp g) else (tmp g, arr))"
    "same_but {arr, tmp g} (g\<lparr>tmp := tmp g'\<rparr>) g'" by blast
  have f: "size' g' = size' g" "alloc g' arr" "alloc g' prevArr" "alloc g' (tmp g)" "pool_inside g'"
    using h(3) al pool same_but_fields(1)[OF h(3)] same_but_alloc[OF h(3)] same_but_pool(1)[OF h(3)]
    by simp_all
  have al': "alloc g' a'" "alloc g' (tmp g')" using h(2) f by (auto split: if_splits)
  from linearSolve_iteration_fun[OF al'(1) f(3) al'(2), of dir k "1 / sc"] N f(1,5)
  obtain g'' where g'': "linearSolve_iteration dir prevArr k (1 / sc) (a', g') = Some (tmp g', g'')"
    "same_but {tmp g'} (g'\<lparr>tmp := a'\<rparr>) g''" by auto
  have t'': "tmp g'' = a'" using same_but_fields(2)[OF g''(2)] by simp
  have "same_but {arr, tmp g} (g\<lparr>tmp := a'\<rparr>) (g'\<lparr>tmp := a'\<rparr>)"
    using same_but_tmp_upd[OF h(3), of a'] by simp
  moreover have "same_but {arr, tmp g} (g'\<lparr>tmp := a'\<rparr>) g''"
    using g''(2) h(2) by (auto intro: same_but_mono split: if_splits)
  ultimately have sb: "same_but {arr, tmp g} (g\<lparr>tmp := tmp g''\<rparr>) g''"
    using t'' by (auto intro: same_but_trans)
  have "linearSolve_locals dir (int (Suc n)) arr prevArr k sc g = Some (tmp g', g'')"
    using linearSolve_locals_Suc[of dir n arr prevArr k sc g] h(1) g''(1) by (simp add: add.commute)
  moreover have "(tmp g', tmp g'') = (if even (Suc n) then (arr, tmp g) else (tmp g, arr))"
    using h(2) t'' by (auto split: if_splits)
  ultimately show ?case using sb by blast
qed

lemma freshGrid_eq:
  "freshGrid n = \<lparr>size' = n, density = 1, prevDensity = 2, velocityX = 3, prevVelocityX = 4,
     velocityY = 5, prevVelocityY = 6, tmp = 7,
     mem = (\<lambda>p. if p \<in> {1, 2, 3, 4, 5, 6, 7} then Some (replicate (nat (n * n)) 0) else None),
     threadPool = workerChunks 6\<rparr>"
  by (auto simp: freshGrid_def FluidGrid_new_def calloc_def NULL_def fun_eq_iff)

lemma freshGrid_fields [simp]:
  "size' (freshGrid n) = n" "density (freshGrid n) = 1" "prevDensity (freshGrid n) = 2"
  "velocityX (freshGrid n) = 3" "prevVelocityX (freshGrid n) = 4" "velocityY (freshGrid n) = 5"
  "prevVelocityY (freshGrid n) = 6" "tmp (freshGrid n) = 7" "threadPool (freshGrid n) = workerChunks 6"
  by (simp_all add: freshGrid_eq)

lemma freshGrid_alloc: "p \<in> {1, 2, 3, 4, 5, 6, 7} \<Longrightarrow> alloc (freshGrid n) p"
  by (simp add: freshGrid_eq alloc_def)

lemma freshGrid_peek [simp]: "peek (freshGrid n) p i = 0"
  by (simp add: freshGrid_eq peek_def rd_def)



lemma workerChunks_6_4: "workerChunks 6 4 = [(0, 0), (0, 0), (0, 0), (0, 0), (0, 0), (0, 4)]"
  by code_simp


text \<open>The chunks of \<open>workerChunks\<close> are a partition of \<open>[0, n)\<close>, as the spec asks.\<close>

lemma chunks_from_map:
  fixes q n :: int
  assumes "0 \<le> q" "int w * q \<le> n" "i < w"
  shows "chunks_from (int i * q)
     (map (\<lambda>i. (int i * q, if Suc i = w then n else (int i + 1) * q)) [i..<w]) n"
  using assms(3)
proof (induction "w - i" arbitrary: i)
  case 0
  then show ?case by simp
next
  case (Suc k)
  have up: "[i..<w] = i # [Suc i..<w]" using Suc.prems by (simp add: upt_conv_Cons)
  show ?case
  proof (cases "Suc i = w")
    case True
    have "int i * q \<le> int w * q" using assms(1) True by (intro mult_right_mono) auto
    then show ?thesis using True up assms(2) by simp
  next
    case False
    then have lt: "Suc i < w" using Suc.prems by simp
    have k: "k = w - Suc i" using Suc.hyps(2) by simp
    have "chunks_from (int (Suc i) * q)
        (map (\<lambda>i. (int i * q, if Suc i = w then n else (int i + 1) * q)) [Suc i..<w]) n"
      by (rule Suc.hyps(1)[OF k lt])
    moreover have "int i * q \<le> (int i + 1) * q" using assms(1) by (simp add: distrib_right)
    ultimately show ?thesis using up False by (simp add: add.commute)
  qed
qed

lemma workerChunks_partition:
  assumes "0 < w" "0 \<le> n"
  shows "chunks_from 0 (workerChunks w n) n"
proof -
  let ?q = "n div int w"
  have q: "0 \<le> ?q" using assms by (simp add: pos_imp_zdiv_nonneg_iff)
  have "int w * ?q \<le> n"
  proof -
    have "n = int w * ?q + n mod int w" by simp
    moreover have "0 \<le> n mod int w" using assms(1) by simp
    ultimately show ?thesis by linarith
  qed
  from chunks_from_map[OF q this assms(1)] show ?thesis by (simp add: workerChunks_def Let_def)
qed

lemma freshGrid_partition: "0 \<le> n \<Longrightarrow> chunks_from 0 (threadPool (freshGrid n) n) n"
  by (simp add: workerChunks_partition)

subsection \<open>Claims\<close>

text \<open>
  C10: calling \<^verbatim>\<open>linearSolve\<close>, and therefore \<^verbatim>\<open>diffuse\<close>, with iteration count 0 does
  nothing at all: no stencil pass, no exchange of the scratch pointer, no boundary
  enforcement. The grid that comes back is the grid that went in (same pointers, same
  memory), and the local \<^verbatim>\<open>arr\<close> is still the pointer that was passed.
\<close>

theorem linearSolve_zero_iterations_noop:
  "linearSolve_locals direction 0 arr prevArr neighborDiffusion scaling g = Some (arr, g)
   \<and> linearSolve direction 0 arr prevArr neighborDiffusion scaling g = Some g
   \<and> diffuse direction 0 arr prevArr dt diffusion g = Some g"
  by (simp add: linearSolve_locals_def linearSolve_def diffuse_def for_loop.simps Let_def)


lemma inkGrid_props:
  assumes "0 \<le> x" "x < n" "0 \<le> y" "y < n"
  shows "addDensity x y amount 1 (freshGrid n) = Some (inkGrid n x y amount)"
    and "same_but {1} (freshGrid n) (inkGrid n x y amount)"
    and "peek (inkGrid n x y amount) 1 (x + y * n) = amount * of_int n"
    and "\<And>j. j \<noteq> x + y * n \<Longrightarrow> peek (inkGrid n x y amount) 1 j = 0"
proof -
  have ib: "inb (freshGrid n) (x + y * size' (freshGrid n))" using assms by (intro inb_cell) auto
  have al: "alloc (freshGrid n) 1" by (simp add: freshGrid_alloc)
  have "addDensity x y amount 1 (freshGrid n) = wr 1 (x + y * n) (amount * of_int n) (freshGrid n)"
    using ib al by (simp add: addDensity_def rd_peek inb_def)
  moreover from wr_ok[OF al, of "x + y * n" "amount * of_int n"] ib
  obtain g' where g': "wr 1 (x + y * n) (amount * of_int n) (freshGrid n) = Some g'"
    "same_but {1} (freshGrid n) g'" "peek g' 1 (x + y * n) = amount * of_int n"
    "\<forall>j. j \<noteq> x + y * n \<longrightarrow> peek g' 1 j = peek (freshGrid n) 1 j"
    by (auto simp: inb_def)
  ultimately have e: "addDensity x y amount 1 (freshGrid n) = Some g'" "inkGrid n x y amount = g'"
    by (simp_all add: inkGrid_def)
  show "addDensity x y amount 1 (freshGrid n) = Some (inkGrid n x y amount)" using e by simp
  show "same_but {1} (freshGrid n) (inkGrid n x y amount)" using e g' by simp
  show "peek (inkGrid n x y amount) 1 (x + y * n) = amount * of_int n" using e g' by simp
  show "\<And>j. j \<noteq> x + y * n \<Longrightarrow> peek (inkGrid n x y amount) 1 j = 0" using e g' by simp
qed

lemma inkGrid_fields:
  assumes "0 \<le> x" "x < n" "0 \<le> y" "y < n"
  shows "size' (inkGrid n x y a) = n" "density (inkGrid n x y a) = 1" "prevDensity (inkGrid n x y a) = 2"
    "velocityX (inkGrid n x y a) = 3" "prevVelocityX (inkGrid n x y a) = 4"
    "velocityY (inkGrid n x y a) = 5" "prevVelocityY (inkGrid n x y a) = 6" "tmp (inkGrid n x y a) = 7"
    "threadPool (inkGrid n x y a) = workerChunks 6"
    "\<And>p. p \<noteq> 1 \<Longrightarrow> peek (inkGrid n x y a) p i = 0"
    "\<And>p. p \<in> {1, 2, 3, 4, 5, 6, 7} \<Longrightarrow> alloc (inkGrid n x y a) p"
  using same_but_fields[OF inkGrid_props(2)[OF assms, of a]]
    same_but_peek[OF inkGrid_props(2)[OF assms, of a]]
    same_but_alloc[OF inkGrid_props(2)[OF assms, of a]]
  by (simp_all add: freshGrid_alloc)

subsection \<open>The stencil kernels on the rows the pool hands out\<close>

lemma rd_negative: "i < 0 \<Longrightarrow> rd g p i = None"
  by (simp add: rd_def split: option.splits)

lemma loadu_negative: "i < 0 \<Longrightarrow> mm256_loadu_ps g p i = None"
  by (simp add: mm256_loadu_ps_def split: option.splits)

lemma wr_size: "wr p i v g = Some g' \<Longrightarrow> size' g' = size' g"
  by (auto simp: wr_def split: option.splits if_splits)

lemma storeu_size: "mm256_storeu_ps p i v g = Some g' \<Longrightarrow> size' g' = size' g"
  by (auto simp: mm256_storeu_ps_def split: option.splits if_splits)





lemma projectMassConservLoop_cell_row0:
  assumes "x < size' g"
  shows "projectMassConservLoop_cell p d 0 x g = None"
proof -
  have "rd g1 p (x + (0 - 1) * size' g1) = None" if "size' g1 = size' g" for g1
    using assms that by (intro rd_negative) simp
  then show ?thesis
    unfolding projectMassConservLoop_cell_def
    by (auto split: Option.bind_splits dest: wr_size)
qed

lemma projectMassConservLoop_vec_row0:
  assumes "x < size' g"
  shows "projectMassConservLoop_vec p d 0 x g = None"
proof -
  have "mm256_loadu_ps g1 p (x + (0 - 1) * size' g1) = None" if "size' g1 = size' g" for g1
    using assms that by (intro loadu_negative) simp
  then show ?thesis
    unfolding projectMassConservLoop_vec_def Let_def
    by (auto split: Option.bind_splits dest: storeu_size)
qed

lemma row_loop_undefined:
  assumes "3 \<le> n" "vec 1 s = None" "scal 1 s = None"
  shows "row_loop n vec scal s = None"
proof (cases "1 < n - 9")
  case True
  then show ?thesis using assms(2) by (simp add: row_loop_def simd_loop.simps[of 1])
next
  case False
  then have "simd_loop 1 (n - 9) vec s = Some (1, s)" by (simp add: simd_loop.simps[of 1])
  then show ?thesis using assms(1,3) by (simp add: row_loop_def for_loop.simps[of 1])
qed

lemma rows_from_0_undefined:
  assumes "0 < e" "body 0 g = None"
  shows "for_loop 0 e body g = None"
  using assms by (simp add: for_loop.simps[of 0])

lemma run_chunks_undefined:
  assumes "chunks_from a cs n" "a = 0" "0 < n"
    and "\<And>e. 0 < e \<Longrightarrow> work 0 e g = None" and "work 0 0 g = Some g"
  shows "run_chunks cs work g = None"
  using assms(1,2)
proof (induction cs arbitrary: a)
  case Nil
  then show ?case using assms(3) by simp
next
  case (Cons c cs)
  then have c: "fst c = 0" "0 \<le> snd c" "chunks_from (snd c) cs n" by simp_all
  show ?case
  proof (cases "snd c = 0")
    case True
    then have "run_chunks cs work g = None" using Cons.IH[OF c(3)] by simp
    then show ?thesis using c(1) True assms(5) by simp
  next
    case False
    then have "work 0 (snd c) g = None" using c(2) by (intro assms(4)) simp
    then show ?thesis using c(1) by simp
  qed
qed



lemma projectMassConserv_pass_undefined:
  assumes N: "3 \<le> size' g" and pool: "chunks_from 0 (threadPool g (size' g)) (size' g)"
  shows "projectMassConserv_pass p d g = None"
  unfolding projectMassConserv_pass_def computeOnThreads_def
proof (rule run_chunks_undefined[OF pool refl])
  show "0 < size' g" using N by simp
  show "projectMassConservLoop 0 0 p d g = Some g"
    by (simp add: projectMassConservLoop_def for_loop.simps)
  fix e :: int assume "0 < e"
  then show "projectMassConservLoop 0 e p d g = None"
    unfolding projectMassConservLoop_def using N
    by (intro rows_from_0_undefined row_loop_undefined projectMassConservLoop_cell_row0
        projectMassConservLoop_vec_row0) simp_all
qed









lemma advected_zero_prev:
  "(\<And>i. peek g prevArr i = 0) \<Longrightarrow> advected g prevArr velX velY sc x y = 0"
  by (simp add: advected_def bilinear_def Let_def)

text \<open>
  C2, which the code breaks: \<^verbatim>\<open>advectLoop(startIndex, endIndex, ...)\<close> does not keep to its
  row range. On a 4 by 4 grid with density injected at cell \<open>(1, 2)\<close> (so the cell holds 4),
  the invocation with the row range \<open>[1, 2)\<close> overwrites that cell of row 2 with 0.
\<close>

theorem advectLoop_writes_outside_its_rows:
  "cell 1 1 2 (inkGrid 4 1 2 1) = 4
   \<and> map_option (cell 1 1 2) (advectLoop 1 2 1 2 3 5 1 (inkGrid 4 1 2 1)) = Some 0
   \<and> \<not> ((1::int) \<le> 2 \<and> (2::int) < 2)"
proof -
  let ?g = "inkGrid 4 1 2 1"
  have xy: "(0::int) \<le> 1" "(1::int) < 4" "(0::int) \<le> 2" "(2::int) < 4" by simp_all
  note fl = inkGrid_fields[OF xy, where a = 1]
  have before: "cell 1 1 2 ?g = 4" using inkGrid_props(3)[OF xy, of 1] by (simp add: cell_def fl)
  have al: "alloc ?g 1" "alloc ?g 2" "alloc ?g 3" "alloc ?g 5" by (rule fl(11); simp)+
  have ne: "(1::ptr) \<notin> {2, 3, 5}" by simp
  have N: "2 \<le> size' ?g" "size' ?g \<le> 10" by (simp_all add: fl)
  from advectLoop_fun[OF al ne N grown_refl, of 1 2 1]
  obtain s' where s': "advectLoop 1 2 1 2 3 5 1 ?g = Some s'" "grown 1 ?g s'"
    "\<forall>x y. 1 \<le> y \<and> y < size' ?g - 1 \<and> 1 \<le> x \<and> x < size' ?g - 1
        \<longrightarrow> holds (size' ?g) 1 (advected ?g 2 3 5 (1 * of_int (size' ?g))) x y s'" by blast
  have "holds 4 1 (advected ?g 2 3 5 (1 * of_int (size' ?g))) 1 2 s'" using s'(3) by (simp add: fl)
  then have "peek s' 1 (1 + 2 * 4) = 0" by (simp add: holds_def advected_zero_prev fl)
  moreover have "size' s' = 4" using same_but_fields(1)[OF grown_same_but[OF s'(2)]] by (simp add: fl)
  ultimately have "map_option (cell 1 1 2) (advectLoop 1 2 1 2 3 5 1 ?g) = Some 0"
    using s'(1) by (simp add: cell_def)
  then show ?thesis using before by simp
qed

text \<open>
  C4, which the code breaks: the constructor does not notice a failed allocation of the
  scratch buffer. When the seventh \<^verbatim>\<open>calloc\<close> (that of \<^verbatim>\<open>tmp\<close>) fails and the six before it
  succeed, no exception is thrown: the constructor returns a grid whose \<^verbatim>\<open>tmp\<close> is \<open>NULL\<close>.
  A failure of any of the first six allocations is reported.
\<close>

theorem constructor_misses_failed_tmp_allocation:
  "map_sum id (\<lambda>g. (tmp g, mem g (tmp g))) (FluidGrid_new (\<lambda>k. k \<noteq> 6) 10)
     = Inr (NULL, None)
   \<and> FluidGrid_new (\<lambda>k. k \<noteq> 5) 10
     = Inl (RuntimeError (''Failed to allocate memory for FluidGrid'' @ [CHR 0x0A]))"
  by (simp add: FluidGrid_new_def calloc_def NULL_def)

lemma FluidGrid_new_reports_first_six:
  "k < 6 \<Longrightarrow> \<not> succeeds k \<Longrightarrow>
     FluidGrid_new succeeds n
       = Inl (RuntimeError (''Failed to allocate memory for FluidGrid'' @ [CHR 0x0A]))"
proof -
  assume "k < 6" "\<not> succeeds k"
  then have "k \<in> {0, 1, 2, 3, 4, 5}" by auto
  then show ?thesis using \<open>\<not> succeeds k\<close>
    by (auto simp: FluidGrid_new_def calloc_def NULL_def split: prod.splits)
qed














lemma alloc_cong: "mem s = mem g \<Longrightarrow> size' s = size' g \<Longrightarrow> alloc s p = alloc g p"
  by (auto simp: alloc_def split: option.splits)

lemma peek_cong: "mem s = mem g \<Longrightarrow> peek s p i = peek g p i"
  by (simp add: peek_def rd_def)


lemma pool_covers_cong:
  "threadPool s = threadPool g \<Longrightarrow> size' s = size' g \<Longrightarrow> pool_covers s = pool_covers g"
  by (simp add: pool_covers_def)

















subsection \<open>Advection\<close>






subsection \<open>Fading a field of single-precision values\<close>

lemma withDensity_fields [simp]:
  "size' (withDensity xs g) = size' g" "density (withDensity xs g) = density g"
  by (simp_all add: withDensity_def)

lemma withDensity_alloc:
  "int (length xs) = size' g * size' g \<Longrightarrow> alloc (withDensity xs g) (density g)"
  by (simp add: withDensity_def alloc_def)

lemma withDensity_peek:
  "peek (withDensity xs g) (density g) j = (if 0 \<le> j \<and> j < int (length xs) then xs ! nat j else 0)"
  by (simp add: withDensity_def peek_def rd_def)

lemma withDensity_same_but:
  assumes "alloc g (density g)" "int (length xs) = size' g * size' g"
    "int (length ys) = size' g * size' g"
  shows "same_but {density g} (withDensity xs g) (withDensity ys g)"
proof -
  have "length ys = length xs" using assms(2,3) by linarith
  moreover have "withDensity ys g = (withDensity xs g)\<lparr>mem := (mem g)(density g \<mapsto> ys)\<rparr>"
    by (simp add: withDensity_def)
  ultimately show ?thesis unfolding same_but_def by (auto simp: withDensity_def)
qed

lemma interior_idx_3: "interior_idx 3 = {4}"
proof (rule set_eqI)
  fix j :: int
  show "j \<in> interior_idx 3 \<longleftrightarrow> j \<in> {4}"
  proof
    assume "j \<in> interior_idx 3"
    then obtain x y :: int where h: "1 \<le> x" "x < 3 - 1" "1 \<le> y" "y < 3 - 1" "j = x + y * 3"
      unfolding interior_idx_def by blast
    have "x = 1" "y = 1" using h(1-4) by linarith+
    then show "j \<in> {4}" using h(5) by simp
  next
    assume "j \<in> {4}"
    then show "j \<in> interior_idx 3" using interior_idxI[of 1 3 1] by simp
  qed
qed

lemma interior_idx_4: "interior_idx 4 = {5, 6, 9, 10}"
proof (rule set_eqI)
  fix j :: int
  show "j \<in> interior_idx 4 \<longleftrightarrow> j \<in> {5, 6, 9, 10}"
  proof
    assume "j \<in> interior_idx 4"
    then obtain x y :: int where h: "1 \<le> x" "x < 4 - 1" "1 \<le> y" "y < 4 - 1" "j = x + y * 4"
      unfolding interior_idx_def by blast
    have "x = 1 \<or> x = 2" "y = 1 \<or> y = 2" using h(1-4) by linarith+
    then show "j \<in> {5, 6, 9, 10}" using h(5) by auto
  next
    assume "j \<in> {5, 6, 9, 10}"
    then show "j \<in> interior_idx 4"
      using interior_idxI[of 1 4 1] interior_idxI[of 2 4 1] interior_idxI[of 1 4 2]
        interior_idxI[of 2 4 2] by auto
  qed
qed

lemma scaledFadeRate_le_1:
  assumes "0 \<le> dt * fadeRate" "0 \<le> N"
  shows "to_float (to_double (1 - to_double (to_double (dt * fadeRate) * N))) \<le> 1"
proof -
  have one: "to_double 1 = 1" "to_float 1 = 1"
    using to_double_int[of 1] to_float_int[of 1] by simp_all
  have "0 \<le> to_double (dt * fadeRate)" using assms(1) by (rule to_double_facts(2))
  then have "0 \<le> to_double (dt * fadeRate) * N" using assms(2) by simp
  then have "0 \<le> to_double (to_double (dt * fadeRate) * N)" by (rule to_double_facts(2))
  then have "1 - to_double (to_double (dt * fadeRate) * N) \<le> 1" by simp
  then have "to_double (1 - to_double (to_double (dt * fadeRate) * N)) \<le> to_double 1"
    by (rule to_double_facts(4)) simp
  then have "to_double (1 - to_double (to_double (dt * fadeRate) * N)) \<le> 1" by (simp only: one)
  then have "to_float (to_double (1 - to_double (to_double (dt * fadeRate) * N))) \<le> to_float 1"
    by (rule to_float_facts(4)) simp
  then show ?thesis by (simp only: one)
qed

lemma faded_cell_le:
  assumes "is_float c" "0 \<le> c" "f \<le> 1"
  shows "to_float (c * f) \<le> c"
proof -
  have "c * f \<le> c" using assms(2,3) by (simp add: mult_left_le)
  then have "to_float (c * f) \<le> to_float c" using assms(2) by (rule to_float_facts(4))
  then show ?thesis using assms(1) by (simp add: is_float_def)
qed

lemma fadeDensity_small: "size' g \<le> 2 \<Longrightarrow> fadeDensity dt fadeRate g = Some g"
  by (simp add: fadeDensity_def Let_def for_loop.simps)

lemma interior_sum_mono:
  assumes "size' g' = size' g"
    and "\<And>x y. 1 \<le> x \<Longrightarrow> x < size' g - 1 \<Longrightarrow> 1 \<le> y \<Longrightarrow> y < size' g - 1
           \<Longrightarrow> density_at x y g' \<le> density_at x y g"
  shows "interior_sum g' \<le> interior_sum g"
  unfolding interior_sum_def assms(1)
  by (intro sum_list_mono assms(2)) auto

lemma fadeDensity_withDensity:
  assumes al: "alloc g (density g)" and N: "2 \<le> size' g"
    and lx: "int (length xs) = size' g * size' g" and ly: "int (length ys) = size' g * size' g"
    and f: "to_float (to_double (1 - to_double (to_double (dt * fadeRate) * of_int (size' g)))) = f"
    and vals: "\<And>j. 0 \<le> j \<Longrightarrow> j < int (length xs) \<Longrightarrow>
       ys ! nat j = (if j \<in> interior_idx (size' g) then to_float (xs ! nat j * f) else xs ! nat j)"
  shows "fadeDensity dt fadeRate (withDensity xs g) = Some (withDensity ys g)"
proof -
  let ?G = "withDensity xs g" and ?D = "density g"
  have alG: "alloc ?G (density ?G)" using withDensity_alloc[OF lx] by simp
  have NG: "2 \<le> size' ?G" using N by simp
  from fadeDensity_fun[OF alG NG, of dt fadeRate]
  obtain g' where g': "fadeDensity dt fadeRate ?G = Some g'" "same_but {?D} ?G g'"
    "\<forall>j. peek g' ?D j =
       (if j \<in> interior_idx (size' g) then to_float (peek ?G ?D j * f) else peek ?G ?D j)"
    by (auto simp: f)
  have sb: "same_but {?D} (withDensity ys g) g'"
    using same_but_trans[OF withDensity_same_but[OF al ly lx] g'(2)] .
  have len: "length ys = length xs" using lx ly by linarith
  have "peek g' p j = peek (withDensity ys g) p j" if "p \<in> {?D}" for p j
  proof (cases "0 \<le> j \<and> j < int (length xs)")
    case True
    then show ?thesis using that g'(3) vals[of j] len by (simp add: withDensity_peek)
  next
    case False
    then have nx: "(0 \<le> j \<and> j < int (length xs)) = False"
      and ny: "(0 \<le> j \<and> j < int (length ys)) = False" using len by simp_all
    have "peek g' (density g) j = 0"
      using g'(3) by (simp add: withDensity_peek nx to_float_facts(1))
    then show ?thesis using that by (simp add: withDensity_peek ny)
  qed
  from same_but_eqI[OF sb this] g'(1) show ?thesis by simp
qed

lemma interior_sum_3: "size' g = 3 \<Longrightarrow> interior_sum g = peek g (density g) 4"
  by (simp add: interior_sum_def density_at_def cell_def)

lemma interior_sum_4:
  "size' g = 4 \<Longrightarrow> interior_sum g
     = peek g (density g) 5 + peek g (density g) 6 + peek g (density g) 9 + peek g (density g) 10"
  by (simp add: interior_sum_def density_at_def cell_def upto_rec1)

lemma index_cases_9:
  "0 \<le> j \<Longrightarrow> j < 9 \<Longrightarrow> j \<in> {0, 1, 2, 3, 4, 5, 6, 7, (8::int)}"
  by (simp add: insert_iff) presburger

lemma index_cases_16:
  "0 \<le> j \<Longrightarrow> j < 16 \<Longrightarrow>
     j \<in> {0, 1, 2, 3, 4, 5, 6, 7, 8, 9, 10, 11, 12, 13, 14, (15::int)}"
  by (simp add: insert_iff) presburger

lemma float_values:
  "to_float (5 / 8) = 5 / 8" "to_float (55 / 64) = 55 / 64" "to_float (- (5 / 2)) = - (5 / 2)"
  "to_float (4880645 / 4194304) = 4880645 / 4194304"
  "to_float (- (9761289 / 8388608)) = - (9761289 / 8388608)"
  "to_float (9 / 256) = 9 / 256" "to_float (1 / 4) = 1 / 4" "to_float (- 4) = - 4"
  "to_float 1000 = 1000" "to_float 3 = 3"
  "to_float (6875 / 8) = 6875 / 8" "to_float (165 / 64) = 165 / 64"
  subgoal by (rule to_float_value[where m = 5 and e = "- 3"]) (simp_all add: two_powr_numeral)
  subgoal by (rule to_float_value[where m = 55 and e = "- 6"]) (simp_all add: two_powr_numeral)
  subgoal by (rule to_float_value[where m = "- 5" and e = "- 1"]) (simp_all add: two_powr_numeral)
  subgoal by (rule to_float_value[where m = 4880645 and e = "- 22"]) (simp_all add: two_powr_numeral)
  subgoal by (rule to_float_value[where m = "- 9761289" and e = "- 23"]) (simp_all add: two_powr_numeral)
  subgoal by (rule to_float_value[where m = 9 and e = "- 8"]) (simp_all add: two_powr_numeral)
  subgoal by (rule to_float_value[where m = 1 and e = "- 2"]) (simp_all add: two_powr_numeral)
  subgoal by (rule to_float_value[where m = "- 4" and e = 0]) (simp_all add: two_powr_numeral)
  subgoal by (rule to_float_value[where m = 1000 and e = 0]) (simp_all add: two_powr_numeral)
  subgoal by (rule to_float_value[where m = 3 and e = 0]) (simp_all add: two_powr_numeral)
  subgoal by (rule to_float_value[where m = 6875 and e = "- 3"]) (simp_all add: two_powr_numeral)
  subgoal by (rule to_float_value[where m = 165 and e = "- 6"]) (simp_all add: two_powr_numeral)
  done

text \<open>
  Two products that single precision cannot hold: \<open>9761290 / 2 ^ 23 * (55 / 64)\<close> is
  \<open>8388608.59375 / 2 ^ 23\<close> and is rounded up to \<open>8388609 / 2 ^ 23\<close>;
  \<open>9761289 / 2 ^ 23 * (55 / 64)\<close> is \<open>16777215.46875 / 2 ^ 24\<close> and is rounded down to
  \<open>16777215 / 2 ^ 24\<close>.
\<close>

lemma float_roundings:
  "to_float (268435475 / 268435456) = 8388609 / 8388608"
  "to_float (- (536870895 / 536870912)) = - (16777215 / 16777216)"
  subgoal by (subst to_float_eval[where k = 0 and e = "- 23"]) (simp_all add: round_nearest_even_def Let_def two_powr_numeral)
  subgoal by (subst to_float_eval[where k = "- 1" and e = "- 24"]) (simp_all add: round_nearest_even_def Let_def two_powr_numeral)
  done

lemma double_values:
  "to_double (1 / 8) = 1 / 8" "to_double (3 / 8) = 3 / 8" "to_double (5 / 8) = 5 / 8"
  "to_double (9 / 256) = 9 / 256" "to_double (9 / 64) = 9 / 64" "to_double (55 / 64) = 55 / 64"
  subgoal by (rule to_double_value[where m = 1 and e = "- 3"]) (simp_all add: two_powr_numeral)
  subgoal by (rule to_double_value[where m = 3 and e = "- 3"]) (simp_all add: two_powr_numeral)
  subgoal by (rule to_double_value[where m = 5 and e = "- 3"]) (simp_all add: two_powr_numeral)
  subgoal by (rule to_double_value[where m = 9 and e = "- 8"]) (simp_all add: two_powr_numeral)
  subgoal by (rule to_double_value[where m = 9 and e = "- 6"]) (simp_all add: two_powr_numeral)
  subgoal by (rule to_double_value[where m = 55 and e = "- 6"]) (simp_all add: two_powr_numeral)
  done

lemma fade_size_3:
  "fadeDensity (1 / 4) (1 / 2) (withDensity [0, 0, 0, 0, - 4, 0, 0, 0, 0] (freshGrid 3))
     = Some (withDensity [0, 0, 0, 0, - (5 / 2), 0, 0, 0, 0] (freshGrid 3))"
proof (rule fadeDensity_withDensity[where f = "5 / 8"])
  fix j :: int
  assume "0 \<le> j" "j < int (length [0, 0, 0, 0, - 4, 0, 0, 0, 0 :: real])"
  then have "j \<in> {0, 1, 2, 3, 4, 5, 6, 7, 8}" by (intro index_cases_9) simp_all
  then show "[0, 0, 0, 0, - (5 / 2), 0, 0, 0, 0] ! nat j
      = (if j \<in> interior_idx (size' (freshGrid 3))
         then to_float ([0, 0, 0, 0, - 4, 0, 0, 0, 0] ! nat j * (5 / 8))
         else [0, 0, 0, 0, - 4, 0, 0, 0, 0] ! nat j)"
    by (auto simp: interior_idx_3 to_float_facts(1) float_values)
qed (simp_all add: freshGrid_alloc double_values float_values)

lemma fade_size_4_mixed:
  "fadeDensity (9 / 256) 1
     (withDensity [0, 0, 0, 0, 0, 9761290 / 2 ^ 23, - (9761289 / 2 ^ 23), 0, 0, 0, 0, 0, 0, 0, 0, 0]
        (freshGrid 4))
     = Some (withDensity
        [0, 0, 0, 0, 0, 8388609 / 2 ^ 23, - (16777215 / 2 ^ 24), 0, 0, 0, 0, 0, 0, 0, 0, 0]
        (freshGrid 4))"
proof (rule fadeDensity_withDensity[where f = "55 / 64"])
  let ?xs = "[0, 0, 0, 0, 0, 9761290 / 2 ^ 23, - (9761289 / 2 ^ 23), 0, 0, 0, 0, 0, 0, 0, 0, 0 :: real]"
  fix j :: int
  assume "0 \<le> j" "j < int (length ?xs)"
  then have "j \<in> {0, 1, 2, 3, 4, 5, 6, 7, 8, 9, 10, 11, 12, 13, 14, 15}"
    by (intro index_cases_16) simp_all
  then show "[0, 0, 0, 0, 0, 8388609 / 2 ^ 23, - (16777215 / 2 ^ 24), 0, 0, 0, 0, 0, 0, 0, 0, 0] ! nat j
      = (if j \<in> interior_idx (size' (freshGrid 4)) then to_float (?xs ! nat j * (55 / 64))
         else ?xs ! nat j)"
    by (auto simp: interior_idx_4 to_float_facts(1) float_roundings)
qed (simp_all add: freshGrid_alloc double_values float_values)

lemma fade_size_4_nonneg:
  "fadeDensity (9 / 256) 1
     (withDensity [0, 0, 0, 0, 0, 9761290 / 2 ^ 23, 1000, 0, 0, 3, 0, 0, 0, 0, 0, 0] (freshGrid 4))
     = Some (withDensity
        [0, 0, 0, 0, 0, 8388609 / 2 ^ 23, 6875 / 8, 0, 0, 165 / 64, 0, 0, 0, 0, 0, 0]
        (freshGrid 4))"
proof (rule fadeDensity_withDensity[where f = "55 / 64"])
  let ?xs = "[0, 0, 0, 0, 0, 9761290 / 2 ^ 23, 1000, 0, 0, 3, 0, 0, 0, 0, 0, 0 :: real]"
  fix j :: int
  assume "0 \<le> j" "j < int (length ?xs)"
  then have "j \<in> {0, 1, 2, 3, 4, 5, 6, 7, 8, 9, 10, 11, 12, 13, 14, 15}"
    by (intro index_cases_16) simp_all
  then show "[0, 0, 0, 0, 0, 8388609 / 2 ^ 23, 6875 / 8, 0, 0, 165 / 64, 0, 0, 0, 0, 0, 0] ! nat j
      = (if j \<in> interior_idx (size' (freshGrid 4)) then to_float (?xs ! nat j * (55 / 64))
         else ?xs ! nat j)"
    by (auto simp: interior_idx_4 to_float_facts(1) float_roundings float_values)
qed (simp_all add: freshGrid_alloc double_values float_values)

text \<open>
  C9, as the code has it by design. Whenever \<open>0 < dt * fadeRate * size < 1\<close> and every
  interior cell of the (allocated) density field holds a non-negative single-precision
  value, \<^verbatim>\<open>fadeDensity(dt, fadeRate)\<close> raises no interior cell, so the sum of the interior cells
  after it is at most the sum before it. The factor is computed as the code computes it
  (three double-precision operations, then the conversion to \<^verbatim>\<open>float\<close>), and each product
  \<^verbatim>\<open>density[i] * (float)scaledFadeRate\<close> is rounded to single precision. Fields with a negative
  cell are left out: scaling moves a negative cell towards zero, and the rounding of the
  products can raise the sum of a field with cells of both signs even when that sum is
  positive (see the two fields after the theorem).
\<close>

theorem fadeDensity_nonnegative_field_does_not_grow:
  assumes al: "alloc g (density g)"
    and rate: "0 < dt * fadeRate * of_int (size' g)" "dt * fadeRate * of_int (size' g) < 1"
    and cells: "\<forall>x y. 1 \<le> x \<and> x < size' g - 1 \<and> 1 \<le> y \<and> y < size' g - 1
        \<longrightarrow> is_float (density_at x y g) \<and> 0 \<le> density_at x y g"
  shows "\<exists>g'. fadeDensity dt fadeRate g = Some g'
      \<and> (\<forall>x y. 1 \<le> x \<and> x < size' g - 1 \<and> 1 \<le> y \<and> y < size' g - 1
            \<longrightarrow> density_at x y g' \<le> density_at x y g)
      \<and> interior_sum g' \<le> interior_sum g"
proof (cases "size' g \<le> 2")
  case True
  then show ?thesis by (simp add: fadeDensity_small)
next
  case False
  let ?N = "size' g"
  let ?f = "to_float (to_double (1 - to_double (to_double (dt * fadeRate) * of_int ?N)))"
  have N: "2 \<le> ?N" using False by simp
  then have Npos: "(0::real) < of_int ?N" by simp
  have "0 < dt * fadeRate" using rate(1) Npos by (simp add: zero_less_mult_iff)
  then have f1: "?f \<le> 1" using Npos by (intro scaledFadeRate_le_1) simp_all
  from fadeDensity_fun[OF al N, of dt fadeRate]
  obtain g' where g': "fadeDensity dt fadeRate g = Some g'" "same_but {density g} g g'"
    "\<forall>j. peek g' (density g) j =
       (if j \<in> interior_idx ?N then to_float (peek g (density g) j * ?f) else peek g (density g) j)"
    by blast
  have fl: "size' g' = ?N" "density g' = density g" using g'(2) by (simp_all add: same_but_fields)
  have le: "density_at x y g' \<le> density_at x y g"
    if xy: "1 \<le> x" "x < ?N - 1" "1 \<le> y" "y < ?N - 1" for x y
  proof -
    have "x + y * ?N \<in> interior_idx ?N" using xy by (rule interior_idxI)
    then have "density_at x y g' = to_float (density_at x y g * ?f)"
      using g'(3) by (simp add: density_at_def cell_def fl)
    moreover have "is_float (density_at x y g)" "0 \<le> density_at x y g" using cells xy by blast+
    ultimately show ?thesis using faded_cell_le[OF _ _ f1] by simp
  qed
  then have "interior_sum g' \<le> interior_sum g" using fl(1) by (intro interior_sum_mono)
  then show ?thesis using g'(1) le by blast
qed

theorem fadeDensity_nonnegative_field_does_not_grow_witness:
  "alloc (withDensity [0, 0, 0, 0, 0, 9761290 / 2 ^ 23, 1000, 0, 0, 3, 0, 0, 0, 0, 0, 0] (freshGrid 4)) 1
   \<and> (0::real) < 9 / 256 * 1 * 4 \<and> (9 / 256 * 1 * 4 :: real) < 1
   \<and> is_float (9761290 / 2 ^ 23) \<and> is_float 1000 \<and> is_float 3 \<and> is_float 0
   \<and> fadeDensity (9 / 256) 1
        (withDensity [0, 0, 0, 0, 0, 9761290 / 2 ^ 23, 1000, 0, 0, 3, 0, 0, 0, 0, 0, 0] (freshGrid 4))
       = Some (withDensity
           [0, 0, 0, 0, 0, 8388609 / 2 ^ 23, 6875 / 8, 0, 0, 165 / 64, 0, 0, 0, 0, 0, 0] (freshGrid 4))
   \<and> interior_sum
        (withDensity [0, 0, 0, 0, 0, 8388609 / 2 ^ 23, 6875 / 8, 0, 0, 165 / 64, 0, 0, 0, 0, 0, 0]
           (freshGrid 4))
       \<le> interior_sum
        (withDensity [0, 0, 0, 0, 0, 9761290 / 2 ^ 23, 1000, 0, 0, 3, 0, 0, 0, 0, 0, 0] (freshGrid 4))"
proof -
  let ?W = "withDensity [0, 0, 0, 0, 0, 9761290 / 2 ^ 23, 1000, 0, 0, 3, 0, 0, 0, 0, 0, 0] (freshGrid 4)"
  let ?W' = "withDensity [0, 0, 0, 0, 0, 8388609 / 2 ^ 23, 6875 / 8, 0, 0, 165 / 64, 0, 0, 0, 0, 0, 0]
      (freshGrid 4)"
  have fl: "is_float (9761290 / 2 ^ 23)" "is_float 1000" "is_float 3" "is_float 0"
    by (simp_all add: is_float_def float_values to_float_facts(1))
  have al: "alloc ?W (density ?W)" using withDensity_alloc[of _ "freshGrid 4"] by simp
  have rate: "(0::real) < 9 / 256 * 1 * of_int (size' ?W)" "(9 / 256 * 1 * of_int (size' ?W) :: real) < 1"
    by simp_all
  have cells: "\<forall>x y. 1 \<le> x \<and> x < size' ?W - 1 \<and> 1 \<le> y \<and> y < size' ?W - 1
      \<longrightarrow> is_float (density_at x y ?W) \<and> 0 \<le> density_at x y ?W"
  proof (intro allI impI)
    fix x y :: int
    assume "1 \<le> x \<and> x < size' ?W - 1 \<and> 1 \<le> y \<and> y < size' ?W - 1"
    then have "x = 1 \<or> x = 2" "y = 1 \<or> y = 2" by auto
    then show "is_float (density_at x y ?W) \<and> 0 \<le> density_at x y ?W"
      using fl withDensity_peek[of _ "freshGrid 4"] by (auto simp: density_at_def cell_def)
  qed
  from fadeDensity_nonnegative_field_does_not_grow[OF al rate cells]
  obtain g' where g': "fadeDensity (9 / 256) 1 ?W = Some g'" "interior_sum g' \<le> interior_sum ?W"
    by blast
  from g'(1)[unfolded fade_size_4_nonneg] have "?W' = g'" by (simp only: option.inject)
  then have le: "interior_sum ?W' \<le> interior_sum ?W" using g'(2) by (simp only:)
  have al1: "alloc ?W 1" using al by simp
  have r: "(0::real) < 9 / 256 * 1 * 4" "(9 / 256 * 1 * 4 :: real) < 1" by simp_all
  show ?thesis by (intro conjI al1 r fl fade_size_4_nonneg le)
qed

text \<open>
  Two fields on which the sum grows although \<open>0 < dt * fadeRate * size < 1\<close>. On a grid of
  size 3 whose one interior cell holds -4, \<^verbatim>\<open>fadeDensity(0.25, 0.5)\<close> multiplies by 0.625 and
  leaves -2.5. On a grid of size 4 whose interior cells hold \<open>9761290 / 2 ^ 23\<close>,
  \<open>- 9761289 / 2 ^ 23\<close>, 0 and 0 (sum \<open>2 / 2 ^ 24\<close>), \<^verbatim>\<open>fadeDensity(9/256, 1)\<close> multiplies by
  55/64; the first product is rounded up and the second towards zero, and the sum
  becomes \<open>3 / 2 ^ 24\<close>.
\<close>

theorem fadeDensity_raises_sum_with_negative_cell:
  "(0::real) < 1 / 4 * (1 / 2) * 3 \<and> (1 / 4 * (1 / 2) * 3 :: real) < 1
   \<and> fadeDensity (1 / 4) (1 / 2) (withDensity [0, 0, 0, 0, - 4, 0, 0, 0, 0] (freshGrid 3))
       = Some (withDensity [0, 0, 0, 0, - (5 / 2), 0, 0, 0, 0] (freshGrid 3))
   \<and> interior_sum (withDensity [0, 0, 0, 0, - 4, 0, 0, 0, 0] (freshGrid 3)) = - 4
   \<and> interior_sum (withDensity [0, 0, 0, 0, - (5 / 2), 0, 0, 0, 0] (freshGrid 3)) = - (5 / 2)
   \<and> \<not> interior_sum (withDensity [0, 0, 0, 0, - (5 / 2), 0, 0, 0, 0] (freshGrid 3))
         \<le> interior_sum (withDensity [0, 0, 0, 0, - 4, 0, 0, 0, 0] (freshGrid 3))
   \<and> (0::real) < 9 / 256 * 1 * 4 \<and> (9 / 256 * 1 * 4 :: real) < 1
   \<and> is_float (9761290 / 2 ^ 23) \<and> is_float (- (9761289 / 2 ^ 23))
   \<and> fadeDensity (9 / 256) 1
        (withDensity [0, 0, 0, 0, 0, 9761290 / 2 ^ 23, - (9761289 / 2 ^ 23), 0, 0, 0, 0, 0, 0, 0, 0, 0]
           (freshGrid 4))
       = Some (withDensity
           [0, 0, 0, 0, 0, 8388609 / 2 ^ 23, - (16777215 / 2 ^ 24), 0, 0, 0, 0, 0, 0, 0, 0, 0]
           (freshGrid 4))
   \<and> interior_sum
        (withDensity [0, 0, 0, 0, 0, 9761290 / 2 ^ 23, - (9761289 / 2 ^ 23), 0, 0, 0, 0, 0, 0, 0, 0, 0]
           (freshGrid 4)) = 2 / 2 ^ 24
   \<and> interior_sum
        (withDensity [0, 0, 0, 0, 0, 8388609 / 2 ^ 23, - (16777215 / 2 ^ 24), 0, 0, 0, 0, 0, 0, 0, 0, 0]
           (freshGrid 4)) = 3 / 2 ^ 24"
proof -
  have s3: "interior_sum (withDensity [0, 0, 0, 0, - 4, 0, 0, 0, 0] (freshGrid 3)) = - 4"
    "interior_sum (withDensity [0, 0, 0, 0, - (5 / 2), 0, 0, 0, 0] (freshGrid 3)) = - (5 / 2)"
    using withDensity_peek[of _ "freshGrid 3"] by (simp_all add: interior_sum_3)
  have s4: "interior_sum
        (withDensity [0, 0, 0, 0, 0, 9761290 / 2 ^ 23, - (9761289 / 2 ^ 23), 0, 0, 0, 0, 0, 0, 0, 0, 0]
           (freshGrid 4)) = 2 / 2 ^ 24"
    "interior_sum
        (withDensity [0, 0, 0, 0, 0, 8388609 / 2 ^ 23, - (16777215 / 2 ^ 24), 0, 0, 0, 0, 0, 0, 0, 0, 0]
           (freshGrid 4)) = 3 / 2 ^ 24"
    using withDensity_peek[of _ "freshGrid 4"] by (simp_all add: interior_sum_4)
  have fl: "is_float (9761290 / 2 ^ 23)" "is_float (- (9761289 / 2 ^ 23))"
    by (simp_all add: is_float_def float_values)
  have rates: "(0::real) < 1 / 4 * (1 / 2) * 3" "(1 / 4 * (1 / 2) * 3 :: real) < 1"
    "(0::real) < 9 / 256 * 1 * 4" "(9 / 256 * 1 * 4 :: real) < 1" by simp_all
  have gt: "\<not> interior_sum (withDensity [0, 0, 0, 0, - (5 / 2), 0, 0, 0, 0] (freshGrid 3))
         \<le> interior_sum (withDensity [0, 0, 0, 0, - 4, 0, 0, 0, 0] (freshGrid 3))"
    unfolding s3 by simp
  show ?thesis
    by (intro conjI rates fade_size_3 fade_size_4_mixed s3 s4 fl gt)
qed

end
